theory Spec2Isabelle
  imports Main "HOL-Library.AList"
begin

section \<open>Hex coordinate model (core/hexUtils.js)\<close>

text \<open>
  A \<open>HexPosition\<close> is an axial coordinate \<open>(q, r)\<close>. JavaScript numbers that only ever
  hold integers are modelled as \<open>int\<close>.
\<close>

datatype HexPosition = HexPosition (q: int) (r: int)

text \<open>\<open>equals\<close> compares both fields with \<open>===\<close>.\<close>

definition equals :: "HexPosition \<Rightarrow> HexPosition \<Rightarrow> bool" where
  "equals this other = (q this = q other \<and> r this = r other)"

definition add :: "HexPosition \<Rightarrow> HexPosition \<Rightarrow> HexPosition" where
  "add this other = HexPosition (q this + q other) (r this + r other)"

definition subtract :: "HexPosition \<Rightarrow> HexPosition \<Rightarrow> HexPosition" where
  "subtract this other = HexPosition (q this - q other) (r this - r other)"

definition scale :: "HexPosition \<Rightarrow> int \<Rightarrow> HexPosition" where
  "scale this factor = HexPosition (q this * factor) (r this * factor)"

definition rotate60CCW :: "HexPosition \<Rightarrow> HexPosition" where
  "rotate60CCW this = HexPosition (- r this) (q this + r this)"

definition rotate60CW :: "HexPosition \<Rightarrow> HexPosition" where
  "rotate60CW this = HexPosition (q this + r this) (- q this)"

text \<open>
  \<open>rotateN\<close> is the loop \<open>for (let i = 0; i < n; i++) result = result.rotate60CCW()\<close>;
  \<open>rotateNLoop i n result\<close> is the state of that loop before the test \<open>i < n\<close>.
\<close>

function rotateNLoop :: "int \<Rightarrow> int \<Rightarrow> HexPosition \<Rightarrow> HexPosition" where
  "rotateNLoop i n result =
     (if i < n then rotateNLoop (i + 1) n (rotate60CCW result) else result)"
  by pat_completeness auto
termination
  by (relation "measure (\<lambda>(i, n, result). nat (n - i))") auto

declare rotateNLoop.simps [simp del]

definition rotateN :: "HexPosition \<Rightarrow> int \<Rightarrow> HexPosition" where
  "rotateN this n = rotateNLoop 0 n this"

text \<open>
  The canonical key is the template string \<open>`${q},${r}`\<close>: the decimal rendering of both
  integers, separated by a comma.
\<close>

definition digitChar :: "nat \<Rightarrow> char" where
  "digitChar d = char_of (48 + d)"

function showNat :: "nat \<Rightarrow> string" where
  "showNat n = (if n < 10 then [digitChar n] else showNat (n div 10) @ [digitChar (n mod 10)])"
  by pat_completeness auto
termination
  by (relation "measure (\<lambda>n. n)") auto

declare showNat.simps [simp del]

definition showInt :: "int \<Rightarrow> string" where
  "showInt i = (if i < 0 then CHR ''-'' # showNat (nat (- i)) else showNat (nat i))"

definition key :: "HexPosition \<Rightarrow> string" where
  "key this = showInt (q this) @ '','' @ showInt (r this)"

text \<open>The six unit directions, in the insertion order of the \<open>HexDirection\<close> object.\<close>

definition EAST :: HexPosition where "EAST = HexPosition 1 0"
definition NORTHEAST :: HexPosition where "NORTHEAST = HexPosition 1 (- 1)"
definition NORTHWEST :: HexPosition where "NORTHWEST = HexPosition 0 (- 1)"
definition WEST :: HexPosition where "WEST = HexPosition (- 1) 0"
definition SOUTHWEST :: HexPosition where "SOUTHWEST = HexPosition (- 1) 1"
definition SOUTHEAST :: HexPosition where "SOUTHEAST = HexPosition 0 1"

definition HEX_DIRECTIONS :: "HexPosition list" where
  "HEX_DIRECTIONS = [EAST, NORTHEAST, NORTHWEST, WEST, SOUTHWEST, SOUTHEAST]"

section \<open>Board topology and player layout (core/config.js)\<close>

text \<open>
  JavaScript's \<open>%\<close> truncates towards zero: the result has the sign of the dividend.
\<close>

definition jsRem :: "int \<Rightarrow> int \<Rightarrow> int" where
  "jsRem a b = sgn a * (\<bar>a\<bar> mod \<bar>b\<bar>)"

definition baseTriangle :: "HexPosition list" where
  "baseTriangle =
     [HexPosition 4 (- 8),
      HexPosition 3 (- 7), HexPosition 4 (- 7),
      HexPosition 2 (- 6), HexPosition 3 (- 6), HexPosition 4 (- 6),
      HexPosition 1 (- 5), HexPosition 2 (- 5), HexPosition 3 (- 5), HexPosition 4 (- 5)]"

definition generateTriangle :: "int \<Rightarrow> HexPosition list" where
  "generateTriangle rotationCount =
     (let ccwRotation = jsRem (6 - rotationCount) 6
      in map (\<lambda>pos. rotateN pos ccwRotation) baseTriangle)"

definition generateAllTriangles :: "HexPosition list list" where
  "generateAllTriangles = map generateTriangle [0, 1, 2, 3, 4, 5]"

definition getPlayerTriangleIndices :: "int \<Rightarrow> int list" where
  "getPlayerTriangleIndices playerCount =
     (if playerCount = 2 then [0, 3]
      else if playerCount = 3 then [1, 3, 5]
      else if playerCount = 4 then [0, 1, 3, 4]
      else if playerCount = 5 then [0, 1, 2, 3, 4]
      else [0, 1, 2, 3, 4, 5])"

definition getGoalTriangleIndex :: "int \<Rightarrow> int" where
  "getGoalTriangleIndex homeIndex = jsRem (homeIndex + 3) 6"

definition getTurnOrder :: "int list \<Rightarrow> int list" where
  "getTurnOrder playerIndices =
     (let clockwiseFrom6 = [3, 4, 5, 0, 1, 2]
      in filter (\<lambda>idx. idx \<in> set playerIndices) clockwiseFrom6)"


section \<open>Actors (actors/Actor.js, actors/Piece.js, actors/BoardCell.js)\<close>

text \<open>
  \<open>Piece\<close> and \<open>BoardCell\<close> extend \<open>Actor\<close>. Objects are modelled as values: a cell holds
  its piece by value, and a mutation of a cell is a new entry of the board under the same
  key.
\<close>

record Actor =
  position :: HexPosition
  isVisible :: bool

record Piece = Actor +
  ownerPlayerIndex :: int
  isSelected :: bool

record BoardCell = Actor +
  homeIndex :: int
  piece :: "Piece option"

definition newPiece :: "HexPosition \<Rightarrow> int \<Rightarrow> Piece" where
  "newPiece pos owner =
     \<lparr>position = pos, isVisible = True, ownerPlayerIndex = owner, isSelected = False\<rparr>"

definition newBoardCell :: "HexPosition \<Rightarrow> int \<Rightarrow> BoardCell" where
  "newBoardCell pos hi = \<lparr>position = pos, isVisible = True, homeIndex = hi, piece = None\<rparr>"

definition hasPiece :: "BoardCell \<Rightarrow> bool" where
  "hasPiece this = (piece this \<noteq> None)"

definition getPiece :: "BoardCell \<Rightarrow> Piece option" where
  "getPiece this = piece this"

text \<open>\<open>setPiece\<close> stores the piece and moves it to the cell's own position.\<close>

definition setPiece :: "BoardCell \<Rightarrow> Piece option \<Rightarrow> BoardCell" where
  "setPiece this p = this\<lparr>piece := map_option (\<lambda>pc. pc\<lparr>position := position this\<rparr>) p\<rparr>"

text \<open>\<open>removePiece\<close> returns the piece and the emptied cell.\<close>

definition removePiece :: "BoardCell \<Rightarrow> Piece option \<times> BoardCell" where
  "removePiece this = (piece this, this\<lparr>piece := None\<rparr>)"

definition belongsTo :: "Piece \<Rightarrow> int \<Rightarrow> bool" where
  "belongsTo this playerIndex = (ownerPlayerIndex this = playerIndex)"

section \<open>Moves and events (core/types.js)\<close>

datatype MatchPhase = WaitingToStart | InProgress | GameOver

datatype MoveType = Move | Jump

record MoveInfo =
  targetPos :: HexPosition
  moveType :: MoveType
  jumpPath :: "HexPosition list"

definition createSimpleMove :: "HexPosition \<Rightarrow> MoveInfo" where
  "createSimpleMove tp = \<lparr>targetPos = tp, moveType = Move, jumpPath = []\<rparr>"

definition createJumpMove :: "HexPosition \<Rightarrow> HexPosition list \<Rightarrow> MoveInfo" where
  "createJumpMove tp jp = \<lparr>targetPos = tp, moveType = Jump, jumpPath = jp\<rparr>"

text \<open>
  No listener is ever subscribed in the repository, so an emission is modelled by its
  record in a log: the event name with its payload.
\<close>

datatype GameEvent =
    PieceMoved HexPosition HexPosition Piece
  | TurnChanged "int option"
  | StateReset

section \<open>Player state (game/PlayerState.js)\<close>

text \<open>
  The display fields of a player (colour name, colour, wood tint), which the constructor
  reads from the style sheet of the page, take no part in the rules and are left out; the
  constructor is modelled where that lookup succeeds.
\<close>

record PlayerState =
  playerIndex :: int
  homeTriangleIndex :: int
  goalTriangleIndex :: int
  piecePositions :: "string set"

definition newPlayerState :: "int \<Rightarrow> int \<Rightarrow> PlayerState" where
  "newPlayerState pidx home =
     \<lparr>playerIndex = pidx, homeTriangleIndex = home,
      goalTriangleIndex = getGoalTriangleIndex home, piecePositions = {}\<rparr>"

definition addPiecePosition :: "PlayerState \<Rightarrow> string \<Rightarrow> PlayerState" where
  "addPiecePosition this positionKey =
     this\<lparr>piecePositions := insert positionKey (piecePositions this)\<rparr>"

definition updatePiecePosition :: "PlayerState \<Rightarrow> string \<Rightarrow> string \<Rightarrow> PlayerState" where
  "updatePiecePosition this fromKey toKey =
     this\<lparr>piecePositions := insert toKey (piecePositions this - {fromKey})\<rparr>"

section \<open>Game state (game/GameState.js)\<close>

text \<open>
  The board is a JavaScript \<open>Map\<close> from position keys to cells: an association list in
  insertion order, where \<open>Map.set\<close> is \<open>AList.update\<close> (an existing key keeps its place, a
  new key goes to the end) and \<open>Map.get\<close> is \<open>map_of\<close>.
\<close>

type_synonym Board = "(string \<times> BoardCell) list"

record GameState =
  board :: Board
  players :: "PlayerState list"
  turnIndex :: int
  turnOrder :: "int list"
  matchPhase :: MatchPhase
  homeSpaces :: "HexPosition list list"
  events :: "GameEvent list"

definition newGameState :: GameState where
  "newGameState =
     \<lparr>board = [], players = [], turnIndex = 0, turnOrder = [],
      matchPhase = WaitingToStart, homeSpaces = generateAllTriangles, events = []\<rparr>"

definition getBoardCell :: "GameState \<Rightarrow> HexPosition \<Rightarrow> BoardCell option" where
  "getBoardCell gs pos = map_of (board gs) (key pos)"

definition getPieceAt :: "GameState \<Rightarrow> HexPosition \<Rightarrow> Piece option" where
  "getPieceAt gs pos = (case getBoardCell gs pos of None \<Rightarrow> None | Some cell \<Rightarrow> getPiece cell)"

definition isPositionOnBoard :: "GameState \<Rightarrow> HexPosition \<Rightarrow> bool" where
  "isPositionOnBoard gs pos = (map_of (board gs) (key pos) \<noteq> None)"

definition isPositionOccupied :: "GameState \<Rightarrow> HexPosition \<Rightarrow> bool" where
  "isPositionOccupied gs pos =
     (case getBoardCell gs pos of None \<Rightarrow> False | Some cell \<Rightarrow> hasPiece cell)"

text \<open>
  \<open>players.find(p => ...)\<close> yields the first matching player object, which the caller then
  mutates: \<open>storeFound\<close> puts the mutated player back in the place of the first match.
  In \<open>movePiece\<close> the branch where \<open>removePiece\<close> yields no piece cannot be reached, since
  the source cell has a piece there.
\<close>

primrec storeFound :: "('a \<Rightarrow> bool) \<Rightarrow> 'a \<Rightarrow> 'a list \<Rightarrow> 'a list" where
  "storeFound P y [] = []"
| "storeFound P y (x # xs) = (if P x then y # xs else x # storeFound P y xs)"

definition movePiece :: "GameState \<Rightarrow> HexPosition \<Rightarrow> HexPosition \<Rightarrow> bool \<times> GameState" where
  "movePiece gs fromPos toPos =
     (case (getBoardCell gs fromPos, getBoardCell gs toPos) of
        (Some fromCell, Some toCell) \<Rightarrow>
          (if \<not> hasPiece fromCell \<or> hasPiece toCell then (False, gs)
           else
             (case removePiece fromCell of
                (None, fromCell') \<Rightarrow> (False, gs)
              | (Some pc, fromCell') \<Rightarrow>
                  (let toCell' = setPiece toCell (Some pc);
                       moved = pc\<lparr>position := position toCell\<rparr>;
                       board' = AList.update (key toPos) toCell'
                                  (AList.update (key fromPos) fromCell' (board gs));
                       owns = (\<lambda>p. homeTriangleIndex p = ownerPlayerIndex moved);
                       players' =
                         (case List.find owns (players gs) of
                            None \<Rightarrow> players gs
                          | Some player \<Rightarrow>
                              storeFound owns
                                (updatePiecePosition player (key fromPos) (key toPos))
                                (players gs))
                   in (True,
                       gs\<lparr>board := board', players := players',
                          events := events gs @ [PieceMoved fromPos toPos moved]\<rparr>))))
      | _ \<Rightarrow> (False, gs))"

definition placePiece :: "GameState \<Rightarrow> HexPosition \<Rightarrow> Piece \<Rightarrow> GameState" where
  "placePiece gs pos pc =
     (case getBoardCell gs pos of
        None \<Rightarrow> gs
      | Some cell \<Rightarrow> gs\<lparr>board := AList.update (key pos) (setPiece cell (Some pc)) (board gs)\<rparr>)"

definition removePieceAt :: "GameState \<Rightarrow> HexPosition \<Rightarrow> Piece option \<times> GameState" where
  "removePieceAt gs pos =
     (case getBoardCell gs pos of
        None \<Rightarrow> (None, gs)
      | Some cell \<Rightarrow>
          (let (pc, cell') = removePiece cell
           in (pc, gs\<lparr>board := AList.update (key pos) cell' (board gs)\<rparr>)))"

text \<open>
  \<open>initializeBoard\<close>: the two nested \<open>for\<close> loops over \<open>q, r = -4 .. 4\<close> build the centre
  hexagon, then every home space is added with its triangle index.
\<close>

definition initializeBoard :: "GameState \<Rightarrow> GameState" where
  "initializeBoard gs =
     (let centre =
            fold (\<lambda>q. fold (\<lambda>r b.
                    (let s = - q - r in
                     if \<bar>s\<bar> \<le> 4
                     then (let pos = HexPosition q r; cell = newBoardCell pos (- 1)
                           in AList.update (key pos) cell b)
                     else b)) [- 4 .. 4]) [- 4 .. 4] [];
          withTriangles =
            fold (\<lambda>(triangle, triangleIndex).
                    fold (\<lambda>pos b. AList.update (key pos) (newBoardCell pos triangleIndex) b) triangle)
              (zip (homeSpaces gs) (map int [0 ..< length (homeSpaces gs)])) centre
      in gs\<lparr>board := withTriangles\<rparr>)"

definition getTrianglePositions :: "GameState \<Rightarrow> int \<Rightarrow> HexPosition list option" where
  "getTrianglePositions gs triangleIndex =
     (if 0 \<le> triangleIndex \<and> triangleIndex < int (length (homeSpaces gs))
      then Some (homeSpaces gs ! nat triangleIndex) else None)"

definition reset :: "GameState \<Rightarrow> GameState" where
  "reset gs =
     gs\<lparr>turnIndex := 0, matchPhase := WaitingToStart, players := [], turnOrder := [],
        board := map (\<lambda>(k, cell). (k, snd (removePiece cell))) (board gs),
        events := events gs @ [StateReset]\<rparr>"

text \<open>
  \<open>hasWon\<close> (game/PlayerState.js): the \<open>for ... of\<close> loop over the goal triangle returns
  \<open>false\<close> at the first cell that is missing, empty or held by another owner. Iterating an
  undefined triangle raises a \<open>TypeError\<close>.
\<close>

datatype error = TypeError

fun hasWonLoop :: "PlayerState \<Rightarrow> GameState \<Rightarrow> HexPosition list \<Rightarrow> bool" where
  "hasWonLoop this gs [] = True"
| "hasWonLoop this gs (pos # rest) =
     (case getBoardCell gs pos of
        None \<Rightarrow> False
      | Some cell \<Rightarrow>
          (if \<not> hasPiece cell then False
           else (case getPiece cell of
                   None \<Rightarrow> False
                 | Some pc \<Rightarrow>
                     (if ownerPlayerIndex pc \<noteq> homeTriangleIndex this then False
                      else hasWonLoop this gs rest))))"

definition hasWon :: "PlayerState \<Rightarrow> GameState \<Rightarrow> error + bool" where
  "hasWon this gs =
     (case getTrianglePositions gs (goalTriangleIndex this) of
        None \<Rightarrow> Inl TypeError
      | Some goalTriangle \<Rightarrow> Inr (hasWonLoop this gs goalTriangle))"


section \<open>Move calculation (game/MoveCalculator.js)\<close>

text \<open>
  The search threads two mutable objects through every call: the set \<open>visited\<close> of
  position keys and the array \<open>moves\<close>. They are passed and returned as a pair.

  \<^item> \<open>findMoves\<close> is \<open>_findMoves\<close>;
  \<^item> \<open>forEachDirection\<close> is the body of \<open>HEX_DIRECTIONS.forEach\<close> run over the remaining
    directions;
  \<^item> \<open>checkJumpLoop\<close> is the \<open>while\<close> loop of \<open>_checkJumpInDirection\<close>, with the loop
    variables \<open>distance\<close>, \<open>foundPiece\<close> and \<open>pieceDistance\<close> as arguments; each \<open>break\<close>
    returns the current pair.

  The loop bound, the literal \<open>16\<close> of the source, is the parameter \<open>lim\<close>, so that the
  bounded scan can be compared with longer ones; \<open>findValidMoves\<close> passes \<open>16\<close>.
\<close>

type_synonym Search = "string set \<times> MoveInfo list"

function findMoves ::
    "int \<Rightarrow> GameState \<Rightarrow> HexPosition \<Rightarrow> HexPosition \<Rightarrow> bool \<Rightarrow> HexPosition list \<Rightarrow> Search \<Rightarrow> Search"
  and forEachDirection ::
    "int \<Rightarrow> GameState \<Rightarrow> HexPosition \<Rightarrow> HexPosition \<Rightarrow> bool \<Rightarrow> HexPosition list \<Rightarrow>
       HexPosition list \<Rightarrow> Search \<Rightarrow> Search"
  and checkJumpLoop ::
    "int \<Rightarrow> GameState \<Rightarrow> HexPosition \<Rightarrow> HexPosition \<Rightarrow> HexPosition \<Rightarrow> HexPosition list \<Rightarrow>
       int \<Rightarrow> bool \<Rightarrow> int \<Rightarrow> Search \<Rightarrow> Search"
where
  "findMoves lim gs startPos currentPos hasJumped currentPath (visited, moves) =
     (if key currentPos \<in> visited then (visited, moves)
      else forEachDirection lim gs startPos currentPos hasJumped currentPath HEX_DIRECTIONS
             (insert (key currentPos) visited, moves))"
| "forEachDirection lim gs startPos currentPos hasJumped currentPath [] s = s"
| "forEachDirection lim gs startPos currentPos hasJumped currentPath (dir # dirs) (visited, moves) =
     (let adjPos = add currentPos dir;
          moves1 = (if isPositionOnBoard gs adjPos
                       \<and> \<not> isPositionOccupied gs adjPos \<and> \<not> hasJumped
                    then moves @ [createSimpleMove adjPos] else moves)
      in forEachDirection lim gs startPos currentPos hasJumped currentPath dirs
           (checkJumpLoop lim gs startPos currentPos dir currentPath 1 False 0 (visited, moves1)))"
| "checkJumpLoop lim gs startPos currentPos dir currentPath distance foundPiece pieceDistance
       (visited, moves) =
     (if distance \<le> lim then
        (let checkPos = add currentPos (scale dir distance) in
         if \<not> isPositionOnBoard gs checkPos then (visited, moves)
         else
           (let isOccupied = isPositionOccupied gs checkPos in
            if \<not> foundPiece then
              (if isOccupied then
                 (if equals checkPos startPos then (visited, moves)
                  else checkJumpLoop lim gs startPos currentPos dir currentPath
                         (distance + 1) True distance (visited, moves))
               else checkJumpLoop lim gs startPos currentPos dir currentPath
                      (distance + 1) foundPiece pieceDistance (visited, moves))
            else
              (if isOccupied then (visited, moves)
               else if distance = pieceDistance * 2 then
                 (if key checkPos \<notin> visited then
                    (let newPath = currentPath @ [checkPos] in
                     findMoves lim gs startPos checkPos True newPath
                       (visited, moves @ [createJumpMove checkPos newPath]))
                  else (visited, moves))
               else checkJumpLoop lim gs startPos currentPos dir currentPath
                      (distance + 1) foundPiece pieceDistance (visited, moves))))
      else (visited, moves))"
  by pat_completeness auto

text \<open>
  Termination. A call of \<open>forEachDirection\<close> receives the pair returned by the scan of the
  previous direction, so the proof needs that no call removes a key from \<open>visited\<close>. The
  measure counts the board keys not yet visited: the board is finite and every nested
  \<open>findMoves\<close> starts from an on-board cell that is not yet visited.
\<close>

lemma visited_mono_dom:
  "findMoves_forEachDirection_checkJumpLoop_dom (Inl (lim, gs, sp, cp, hj, pth, V, ms)) \<Longrightarrow>
     V \<subseteq> fst (findMoves lim gs sp cp hj pth (V, ms))"
  "findMoves_forEachDirection_checkJumpLoop_dom (Inr (Inl (lim, gs, sp, cp, hj, pth, dirs, st))) \<Longrightarrow>
     fst st \<subseteq> fst (forEachDirection lim gs sp cp hj pth dirs st)"
  "findMoves_forEachDirection_checkJumpLoop_dom
     (Inr (Inr (lim, gs, sp, cp, dir, pth, dist, fp, pd, V, ms))) \<Longrightarrow>
     V \<subseteq> fst (checkJumpLoop lim gs sp cp dir pth dist fp pd (V, ms))"
proof (induct lim gs sp cp hj pth "(V, ms)" and lim gs sp cp hj pth dirs st
    and lim gs sp cp dir pth dist fp pd "(V, ms)"
    arbitrary: V ms and and V ms rule: findMoves_forEachDirection_checkJumpLoop.pinduct)
  case (1 lim gs startPos currentPos hasJumped currentPath visited moves)
  then show ?case by (auto simp: findMoves.psimps)
next
  case (2 lim gs startPos currentPos hasJumped currentPath s)
  then show ?case by (simp add: forEachDirection.psimps)
next
  case (3 lim gs startPos currentPos hasJumped currentPath dir dirs visited moves)
  show ?case
    using "3.hyps"(1) "3.hyps"(2)[OF refl refl] "3.hyps"(3)[OF refl refl]
    by (auto simp add: forEachDirection.psimps Let_def)
next
  case (4 lim gs startPos currentPos dir currentPath distance foundPiece pieceDistance visited moves)
  show ?case
    using "4.hyps"(2-)
    by (auto simp add: checkJumpLoop.psimps[OF "4.hyps"(1)] Let_def)
qed

definition searchMeasure ::
  "(int \<times> GameState \<times> HexPosition \<times> HexPosition \<times> bool \<times> HexPosition list \<times> Search) +
   (int \<times> GameState \<times> HexPosition \<times> HexPosition \<times> bool \<times> HexPosition list \<times>
      HexPosition list \<times> Search) +
   (int \<times> GameState \<times> HexPosition \<times> HexPosition \<times> HexPosition \<times> HexPosition list \<times>
      int \<times> bool \<times> int \<times> Search) \<Rightarrow> nat \<times> nat \<times> nat" where
  "searchMeasure x =
     (case x of
        Inl (lim, gs, sp, cp, hj, pth, V, ms) \<Rightarrow>
          (2 * card (fst ` set (board gs) - insert (key cp) V) + 2, 0, 0)
      | Inr (Inl (lim, gs, sp, cp, hj, pth, dirs, V, ms)) \<Rightarrow>
          (2 * card (fst ` set (board gs) - V) + 1, 1, length dirs)
      | Inr (Inr (lim, gs, sp, cp, dir, pth, dist, fp, pd, V, ms)) \<Rightarrow>
          (2 * card (fst ` set (board gs) - V) + 1, 0, nat (lim + 1 - dist)))"

lemma onBoard_iff: "isPositionOnBoard gs p \<longleftrightarrow> key p \<in> fst ` set (board gs)"
  by (simp add: isPositionOnBoard_def map_of_eq_None_iff)

lemma card_unvisited_insert:
  assumes "k \<in> fst ` set b" "k \<notin> V"
  shows "Suc (card (fst ` set b - insert k V)) = card (fst ` set b - V)"
proof -
  have "fst ` set b - insert k V = (fst ` set b - V) - {k}" by auto
  moreover have "k \<in> fst ` set b - V" using assms by simp
  moreover have "finite (fst ` set b - V)" by simp
  ultimately show ?thesis using card_Suc_Diff1[of "fst ` set b - V" k] by simp
qed

termination findMoves
proof (relation "inv_image (less_than <*lex*> less_than <*lex*> less_than) searchMeasure",
    goal_cases)
  case 1
  show ?case by (intro wf_inv_image wf_lex_prod wf_less_than)
next
  case 2
  show ?case by (simp add: searchMeasure_def)
next
  case 3
  show ?case by (simp add: searchMeasure_def)
next
  case (4 lim gs startPos currentPos hasJumped currentPath dir dirs visited moves x xa)
  have "visited \<subseteq> fst (checkJumpLoop lim gs startPos currentPos dir currentPath 1 False 0 (visited, xa))"
    using visited_mono_dom(3)[OF 4(3)] .
  then have "card (fst ` set (board gs)
        - fst (checkJumpLoop lim gs startPos currentPos dir currentPath 1 False 0 (visited, xa)))
      \<le> card (fst ` set (board gs) - visited)"
    by (intro card_mono) auto
  then show ?case
    by (cases "checkJumpLoop lim gs startPos currentPos dir currentPath 1 False 0 (visited, xa)")
       (auto simp add: searchMeasure_def)
next
  case 5
  then show ?case by (simp add: searchMeasure_def)
next
  case 6
  then show ?case by (simp add: searchMeasure_def)
next
  case (7 lim gs startPos currentPos dir currentPath distance foundPiece pieceDistance
      visited moves x xa xaa)
  then have "key x \<in> fst ` set (board gs)" "key x \<notin> visited"
    by (simp_all add: onBoard_iff)
  from card_unvisited_insert[OF this] show ?case
    by (simp add: searchMeasure_def)
next
  case 8
  then show ?case by (simp add: searchMeasure_def)
qed

declare findMoves.simps [simp del]
declare forEachDirection.simps [simp del]
declare checkJumpLoop.simps [simp del]

definition checkJumpInDirection ::
    "int \<Rightarrow> GameState \<Rightarrow> HexPosition \<Rightarrow> HexPosition \<Rightarrow> HexPosition \<Rightarrow> HexPosition list \<Rightarrow>
       Search \<Rightarrow> Search" where
  "checkJumpInDirection lim gs startPos currentPos dir currentPath s =
     checkJumpLoop lim gs startPos currentPos dir currentPath 1 False 0 s"

definition findValidMoves :: "GameState \<Rightarrow> HexPosition \<Rightarrow> MoveInfo list" where
  "findValidMoves gs startPos = snd (findMoves 16 gs startPos startPos False [] ({}, []))"

definition isValidMove :: "GameState \<Rightarrow> HexPosition \<Rightarrow> HexPosition \<Rightarrow> MoveInfo option" where
  "isValidMove gs fromPos toPos =
     List.find (\<lambda>m. equals (targetPos m) toPos) (findValidMoves gs fromPos)"


section \<open>Game flow (game/GameMode.js)\<close>

text \<open>
  The game mode keeps its own copy of the six triangles, generated once in its
  constructor; it is the constant \<open>generateAllTriangles\<close>. A player state is an object of
  the list \<open>players\<close>; \<open>spawnPiecesForPlayer\<close> is given its index there. Reading the
  positions of a triangle that does not exist raises a \<open>TypeError\<close>.
\<close>

definition spawnPiecesForPlayer :: "GameState \<Rightarrow> nat \<Rightarrow> error + GameState" where
  "spawnPiecesForPlayer gs i =
     (let home = homeTriangleIndex (players gs ! i) in
      if 0 \<le> home \<and> home < int (length generateAllTriangles) then
        (let homeTriangle = generateAllTriangles ! nat home
         in Inr (fold (\<lambda>pos g.
                   (let pc = newPiece pos home;
                        g1 = placePiece g pos pc
                    in g1\<lparr>players := (players g1)[i := addPiecePosition (players g1 ! i) (key pos)]\<rparr>))
                 homeTriangle gs))
      else Inl TypeError)"

fun spawnAll :: "GameState \<Rightarrow> nat list \<Rightarrow> error + GameState" where
  "spawnAll gs [] = Inr gs"
| "spawnAll gs (i # rest) =
     (case spawnPiecesForPlayer gs i of Inl e \<Rightarrow> Inl e | Inr g \<Rightarrow> spawnAll g rest)"

definition initGame :: "GameState \<Rightarrow> int \<Rightarrow> error + GameState" where
  "initGame gs playerCount =
     (let gs1 = initializeBoard (reset gs);
          triangleIndices = getPlayerTriangleIndices playerCount;
          gs2 = gs1\<lparr>players := players gs1 @
                  map (\<lambda>(triangleIndex, playerIndex). newPlayerState playerIndex triangleIndex)
                    (zip triangleIndices (map int [0 ..< length triangleIndices]))\<rparr>;
          gs3 = gs2\<lparr>turnOrder := getTurnOrder triangleIndices\<rparr>
      in case spawnAll gs3 [0 ..< length (players gs3)] of
           Inl e \<Rightarrow> Inl e
         | Inr gs4 \<Rightarrow> Inr (gs4\<lparr>matchPhase := InProgress\<rparr>))"

section \<open>Auxiliary predicates of the proofs\<close>

text \<open>Two game states seat the same players in the same turn order.\<close>

definition sameSeating :: "GameState \<Rightarrow> GameState \<Rightarrow> bool" where
  "sameSeating g g' \<longleftrightarrow>
     turnOrder g' = turnOrder g \<and>
     map homeTriangleIndex (players g') = map homeTriangleIndex (players g)"

abbreviation (input) isStep :: "MoveInfo \<Rightarrow> bool" where
  "isStep m \<equiv> moveType m = Move"

text \<open>
  The step-moves the rules allow from a cell: one per direction whose adjacent cell is on
  the board and unoccupied.
\<close>

definition stepMoves :: "GameState \<Rightarrow> HexPosition \<Rightarrow> HexPosition list \<Rightarrow> MoveInfo list" where
  "stepMoves gs cur dirs =
     map createSimpleMove
       (filter (\<lambda>p. isPositionOnBoard gs p \<and> \<not> isPositionOccupied gs p) (map (add cur) dirs))"

text \<open>
  Invariants of the search. Every jump adds an even multiple of a direction, so all landing
  spots of a search have the parity of the cell it started from. \<open>newJumps W V' cp new\<close>
  says that the jump-moves among \<open>new\<close> have pairwise distinct target keys, all in \<open>V'\<close>,
  none in \<open>W\<close>, and targets of the parity of \<open>cp\<close>; \<open>searchExtends W cp s s'\<close> says that
  the search state \<open>s'\<close> extends \<open>s\<close> by such moves and has visited \<open>W\<close>.
\<close>

definition sameParity :: "HexPosition \<Rightarrow> HexPosition \<Rightarrow> bool" where
  "sameParity p p' \<longleftrightarrow> even (q p - q p') \<and> even (r p - r p')"

definition jumpTargets :: "MoveInfo list \<Rightarrow> HexPosition list" where
  "jumpTargets ms = map targetPos (filter (\<lambda>m. moveType m = Jump) ms)"

definition newJumps :: "string set \<Rightarrow> string set \<Rightarrow> HexPosition \<Rightarrow> MoveInfo list \<Rightarrow> bool" where
  "newJumps W V' cp new \<longleftrightarrow>
     distinct (map key (jumpTargets new))
     \<and> (\<forall>t\<in>set (jumpTargets new). key t \<in> V' \<and> key t \<notin> W \<and> sameParity t cp)"

definition searchExtends :: "string set \<Rightarrow> HexPosition \<Rightarrow> Search \<Rightarrow> Search \<Rightarrow> bool" where
  "searchExtends W cp s s' \<longleftrightarrow>
     fst s \<subseteq> fst s' \<and> W \<subseteq> fst s' \<and> (\<exists>new. snd s' = snd s @ new \<and> newJumps W (fst s') cp new)"

text \<open>
  The cells of the board in coordinates: the centre hexagon, the base triangle, and the
  six-pointed star that the hexagon and the six triangles form.
\<close>

definition inHexagon :: "HexPosition \<Rightarrow> bool" where
  "inHexagon p \<longleftrightarrow> - 4 \<le> q p \<and> q p \<le> 4 \<and> - 4 \<le> r p \<and> r p \<le> 4 \<and> \<bar>- q p - r p\<bar> \<le> 4"

definition inBaseTriangle :: "HexPosition \<Rightarrow> bool" where
  "inBaseTriangle p \<longleftrightarrow> r p \<le> - 5 \<and> q p \<le> 4 \<and> - 4 \<le> q p + r p"

definition onStar :: "HexPosition \<Rightarrow> bool" where
  "onStar p \<longleftrightarrow>
     (q p \<le> 4 \<and> r p \<le> 4 \<and> - q p - r p \<le> 4) \<or> (- 4 \<le> q p \<and> - 4 \<le> r p \<and> - 4 \<le> - q p - r p)"

text \<open>
  The jump that the loop of \<open>_checkJumpInDirection\<close> accepts over a pivot at distance \<open>d\<close>:
  the landing at \<open>2 * d\<close> is within the loop bound, every cell up to there is on the
  board, the pivot is the only occupied one among them and is not the start, and the
  landing cell is on the board and unoccupied. \<open>landOn\<close> is what the loop does at such a
  landing: unless visited, the jump-move is pushed and the search goes on from there.
\<close>

definition jumpOver :: "int \<Rightarrow> GameState \<Rightarrow> HexPosition \<Rightarrow> HexPosition \<Rightarrow> HexPosition \<Rightarrow> int \<Rightarrow> bool" where
  "jumpOver lim gs sp cp dir d \<longleftrightarrow>
     1 \<le> d \<and> 2 * d \<le> lim
     \<and> (\<forall>i. 1 \<le> i \<and> i < 2 * d \<longrightarrow> isPositionOnBoard gs (add cp (scale dir i)))
     \<and> (\<forall>i. 1 \<le> i \<and> i < 2 * d \<and> i \<noteq> d \<longrightarrow> \<not> isPositionOccupied gs (add cp (scale dir i)))
     \<and> isPositionOccupied gs (add cp (scale dir d))
     \<and> add cp (scale dir d) \<noteq> sp
     \<and> isPositionOnBoard gs (add cp (scale dir (2 * d)))
     \<and> \<not> isPositionOccupied gs (add cp (scale dir (2 * d)))"

definition landOn ::
    "int \<Rightarrow> GameState \<Rightarrow> HexPosition \<Rightarrow> HexPosition list \<Rightarrow> HexPosition \<Rightarrow> Search \<Rightarrow> Search" where
  "landOn lim gs sp pth L s =
     (if key L \<notin> fst s
      then findMoves lim gs sp L True (pth @ [L]) (fst s, snd s @ [createJumpMove L (pth @ [L])])
      else s)"

text \<open>
  A game state on the standard cells: its board has the keys of the board that
  \<open>initializeBoard\<close> builds. No operation of the game state adds or removes a key.
\<close>

definition standardCells :: "GameState \<Rightarrow> bool" where
  "standardCells gs \<longleftrightarrow> map fst (board gs) = map fst (board (initializeBoard newGameState))"

text \<open>
  What one scan records itself. The array \<open>moves\<close> only grows; the move that the scan of one
  direction pushes, if any, is the first new element, and all later ones come from the
  search continued at the landing.
\<close>

definition recordedByScan ::
    "int \<Rightarrow> GameState \<Rightarrow> HexPosition \<Rightarrow> HexPosition \<Rightarrow> HexPosition \<Rightarrow> HexPosition list \<Rightarrow>
       Search \<Rightarrow> MoveInfo list" where
  "recordedByScan lim gs startPos currentPos dir currentPath s =
     take 1 (drop (length (snd s))
       (snd (checkJumpInDirection lim gs startPos currentPos dir currentPath s)))"

text \<open>
  An example on the standard board: the moving piece at \<open>(0, 0)\<close> and two more pieces at
  \<open>(0, 1)\<close> and \<open>(1, 1)\<close>. A board without pieces is \<open>noPieces\<close>.
\<close>

definition exampleState :: GameState where
  "exampleState =
     placePiece
       (placePiece
          (placePiece (initializeBoard newGameState) (HexPosition 0 0) (newPiece (HexPosition 0 0) 0))
          (HexPosition 0 1) (newPiece (HexPosition 0 1) 3))
       (HexPosition 1 1) (newPiece (HexPosition 1 1) 3)"

definition noPieces :: "Board \<Rightarrow> bool" where
  "noPieces b \<longleftrightarrow> (\<forall>k c. map_of b k = Some c \<longrightarrow> piece c = None)"

text \<open>
  A won position for the player of triangle 0: every cell of the opposite triangle 3 holds
  a piece of owner 0. \<open>ownedBy h gs pos\<close> says that the cell at \<open>pos\<close> holds a piece of
  owner \<open>h\<close>.
\<close>

definition wonState :: GameState where
  "wonState =
     fold (\<lambda>pos g. placePiece g pos (newPiece pos 0)) (generateTriangle 3)
       (initializeBoard newGameState)"

definition ownedBy :: "int \<Rightarrow> GameState \<Rightarrow> HexPosition \<Rightarrow> bool" where
  "ownedBy h gs pos \<longleftrightarrow>
     (\<exists>cell pc. getBoardCell gs pos = Some cell \<and> getPiece cell = Some pc \<and> ownerPlayerIndex pc = h)"

section \<open>Rotation (claim C9)\<close>

lemma rotate60CW_CCW: "rotate60CW (rotate60CCW p) = p"
  by (cases p) (simp add: rotate60CW_def rotate60CCW_def)

lemma rotateNLoop_unfold:
  "i < n \<Longrightarrow> rotateNLoop i n p = rotateNLoop (i + 1) n (rotate60CCW p)"
  "\<not> i < n \<Longrightarrow> rotateNLoop i n p = p"
  by (simp_all add: rotateNLoop.simps)

lemma rotateN_eq_funpow: "rotateN p n = (rotate60CCW ^^ nat n) p"
proof -
  have "rotateNLoop i n p = (rotate60CCW ^^ nat (n - i)) p" for i p
  proof (induct i n p rule: rotateNLoop.induct)
    case (1 i n result)
    show ?case
    proof (cases "i < n")
      case True
      then have "nat (n - i) = Suc (nat (n - (i + 1)))" by simp
      with True 1 show ?thesis
        by (simp add: rotateNLoop_unfold funpow_swap1)
    next
      case False
      then show ?thesis by (simp add: rotateNLoop_unfold)
    qed
  qed
  from this[of 0 p] show ?thesis by (simp add: rotateN_def)
qed

lemma rotateN_values:
  "rotateN p 0 = p"
  "rotateN p 1 = rotate60CCW p"
  "rotateN p 2 = rotate60CCW (rotate60CCW p)"
  "rotateN p 3 = rotate60CCW (rotate60CCW (rotate60CCW p))"
  "rotateN p 4 = rotate60CCW (rotate60CCW (rotate60CCW (rotate60CCW p)))"
  "rotateN p 5 = rotate60CCW (rotate60CCW (rotate60CCW (rotate60CCW (rotate60CCW p))))"
  by (simp_all add: rotateN_eq_funpow eval_nat_numeral)

lemma ccw_is_cw:
  assumes "0 \<le> N" "N \<le> 5"
  shows "rotateN p ((6 - N) mod 6) = (rotate60CW ^^ nat N) p"
proof -
  from assms have "N = 0 \<or> N = 1 \<or> N = 2 \<or> N = 3 \<or> N = 4 \<or> N = 5" by arith
  then show ?thesis
    by (cases p) (auto simp add: rotateN_values eval_nat_numeral rotate60CW_def rotate60CCW_def)
qed

lemma jsRem_nonneg: "0 \<le> a \<Longrightarrow> jsRem a b = a mod \<bar>b\<bar>"
  by (cases "a = 0") (simp_all add: jsRem_def)

text \<open>
  Claim C9. For every rotation count \<open>N\<close> from 0 to 5 and every position, rotating
  counter-clockwise by \<open>(6 - N) mod 6\<close> steps equals \<open>N\<close> clockwise steps, and
  \<open>generateTriangle N\<close> is the base triangle with every cell turned clockwise \<open>N\<close> times: a
  function of \<open>N\<close> alone.
\<close>

theorem rotation_inversion:
  assumes "0 \<le> N" "N \<le> 5"
  shows "rotateN p ((6 - N) mod 6) = (rotate60CW ^^ nat N) p
       \<and> generateTriangle N = map (rotate60CW ^^ nat N) baseTriangle"
  using assms ccw_is_cw[OF assms] by (simp add: generateTriangle_def jsRem_nonneg ccw_is_cw)

theorem rotation_inversion_witness:
  "rotateN (HexPosition 4 (- 8)) ((6 - 2) mod 6) = HexPosition (- 8) 4
     \<and> generateTriangle 2 ! 0 = HexPosition (- 8) 4"
  using rotation_inversion[of 2 "HexPosition 4 (- 8)"]
  by (simp add: eval_nat_numeral rotate60CW_def baseTriangle_def)

section \<open>Seating and turn order (claim C8)\<close>

lemma turn_order_table:
  "getTurnOrder (getPlayerTriangleIndices n) =
     (if n = 2 then [3, 0]
      else if n = 3 then [3, 5, 1]
      else if n = 4 then [3, 4, 0, 1]
      else if n = 5 then [3, 4, 0, 1, 2]
      else [3, 4, 5, 0, 1, 2])"
  by (simp add: getTurnOrder_def getPlayerTriangleIndices_def)

lemma triangle_indices_range:
  "i \<in> set (getPlayerTriangleIndices n) \<Longrightarrow> 0 \<le> i \<and> i < 6"
  by (auto simp add: getPlayerTriangleIndices_def split: if_splits)

lemma placePiece_players [simp]: "players (placePiece g pos pc) = players g"
  by (simp add: placePiece_def split: option.splits)

lemma placePiece_turnOrder [simp]: "turnOrder (placePiece g pos pc) = turnOrder g"
  by (simp add: placePiece_def split: option.splits)

lemma spawn_fold_seating:
  "sameSeating g
     (fold (\<lambda>pos g.
        (let pc = newPiece pos home; g1 = placePiece g pos pc
         in g1\<lparr>players := (players g1)[i := addPiecePosition (players g1 ! i) (key pos)]\<rparr>))
      ps g)"
proof (induction ps arbitrary: g)
  case Nil
  show ?case by (simp add: sameSeating_def)
next
  case (Cons p ps)
  let ?g1 = "(placePiece g p (newPiece p home))\<lparr>players :=
      (players g)[i := addPiecePosition (players g ! i) (key p)]\<rparr>"
  have "sameSeating g ?g1"
    by (simp add: sameSeating_def map_update addPiecePosition_def)
       (metis list_update_id map_update)
  moreover have "sameSeating ?g1 (fold (\<lambda>pos g.
        (let pc = newPiece pos home; g1 = placePiece g pos pc
         in g1\<lparr>players := (players g1)[i := addPiecePosition (players g1 ! i) (key pos)]\<rparr>))
      ps ?g1)"
    by (rule Cons.IH)
  ultimately show ?case
    by (simp add: sameSeating_def Let_def)
qed

lemma spawnPieces_ok:
  assumes "0 \<le> homeTriangleIndex (players g ! i)" "homeTriangleIndex (players g ! i) < 6"
  shows "\<exists>g'. spawnPiecesForPlayer g i = Inr g' \<and> sameSeating g g'"
  using assms spawn_fold_seating
  by (simp add: spawnPiecesForPlayer_def generateAllTriangles_def Let_def)

lemma spawnAll_ok:
  assumes "\<forall>i\<in>set is. i < length (players g)"
    and "\<forall>h\<in>set (map homeTriangleIndex (players g)). 0 \<le> h \<and> h < 6"
  shows "\<exists>g'. spawnAll g is = Inr g' \<and> sameSeating g g'"
  using assms
proof (induction "is" arbitrary: g)
  case Nil
  then show ?case by (simp add: sameSeating_def)
next
  case (Cons i rest)
  from Cons.prems have "0 \<le> homeTriangleIndex (players g ! i)" "homeTriangleIndex (players g ! i) < 6"
    by auto
  from spawnPieces_ok[OF this] obtain g1 where
    g1: "spawnPiecesForPlayer g i = Inr g1" "sameSeating g g1" by blast
  from g1(2) have len: "length (players g1) = length (players g)"
    unfolding sameSeating_def by (metis length_map)
  have "\<exists>g'. spawnAll g1 rest = Inr g' \<and> sameSeating g1 g'"
  proof (rule Cons.IH)
    show "\<forall>i\<in>set rest. i < length (players g1)" using Cons.prems(1) len by simp
    show "\<forall>h\<in>set (map homeTriangleIndex (players g1)). 0 \<le> h \<and> h < 6"
      using Cons.prems(2) g1(2) unfolding sameSeating_def by simp
  qed
  then obtain g' where "spawnAll g1 rest = Inr g'" "sameSeating g1 g'" by blast
  with g1 show ?case by (auto simp add: sameSeating_def)
qed

lemma initializeBoard_fields [simp]:
  "players (initializeBoard g) = players g" "turnOrder (initializeBoard g) = turnOrder g"
  by (simp_all add: initializeBoard_def Let_def)

lemma map_home_newPlayers:
  "map (homeTriangleIndex \<circ> (\<lambda>(triangleIndex, playerIndex). newPlayerState playerIndex triangleIndex))
        (zip xs (map int [0 ..< length xs])) = xs"
proof -
  have "homeTriangleIndex \<circ> (\<lambda>(triangleIndex, playerIndex). newPlayerState playerIndex triangleIndex)
      = fst"
    by (auto simp add: newPlayerState_def fun_eq_iff)
  then show ?thesis by simp
qed

lemma initGame_seating:
  "\<exists>gs'. initGame gs playerCount = Inr gs'
      \<and> map homeTriangleIndex (players gs') = getPlayerTriangleIndices playerCount
      \<and> turnOrder gs' = getTurnOrder (getPlayerTriangleIndices playerCount)"
proof -
  let ?idx = "getPlayerTriangleIndices playerCount"
  let ?g1 = "initializeBoard (reset gs)"
  let ?g3 = "?g1\<lparr>players := players ?g1 @
                  map (\<lambda>(triangleIndex, playerIndex). newPlayerState playerIndex triangleIndex)
                    (zip ?idx (map int [0 ..< length ?idx])),
              turnOrder := getTurnOrder ?idx\<rparr>"
  have pl: "map homeTriangleIndex (players ?g3) = ?idx"
    by (simp add: reset_def map_home_newPlayers)
  have "\<exists>g'. spawnAll ?g3 [0 ..< length (players ?g3)] = Inr g' \<and> sameSeating ?g3 g'"
  proof (rule spawnAll_ok)
    show "\<forall>i\<in>set [0 ..< length (players ?g3)]. i < length (players ?g3)" by simp
    show "\<forall>h\<in>set (map homeTriangleIndex (players ?g3)). 0 \<le> h \<and> h < 6"
      unfolding pl using triangle_indices_range by blast
  qed
  then obtain g' where g': "spawnAll ?g3 [0 ..< length (players ?g3)] = Inr g'"
    "sameSeating ?g3 g'" by blast
  have init: "initGame gs playerCount = Inr (g'\<lparr>matchPhase := InProgress\<rparr>)"
    using g'(1) by (simp add: initGame_def Let_def)
  have to: "turnOrder g' = getTurnOrder ?idx" and hp: "map homeTriangleIndex (players g') = ?idx"
    using g'(2) pl unfolding sameSeating_def by simp_all
  show ?thesis
    unfolding init using to hp by simp
qed

text \<open>
  Claim C8. For every player count, \<open>initGame\<close> succeeds, seats the players on the
  triangles of \<open>getPlayerTriangleIndices\<close> and sets the turn order to the fixed sequence
  \<open>[3, 4, 5, 0, 1, 2]\<close> (clockwise from six o'clock) filtered to those triangles. With
  three players the triangles are \<open>[1, 3, 5]\<close> and the turn order is exactly \<open>[3, 5, 1]\<close>.
\<close>

theorem turn_order_clockwise_from_six:
  "(\<exists>gs'. initGame gs playerCount = Inr gs'
      \<and> map homeTriangleIndex (players gs') = getPlayerTriangleIndices playerCount
      \<and> turnOrder gs' =
          filter (\<lambda>idx. idx \<in> set (getPlayerTriangleIndices playerCount)) [3, 4, 5, 0, 1, 2])
   \<and> (\<exists>gs'. initGame gs 3 = Inr gs'
      \<and> map homeTriangleIndex (players gs') = [1, 3, 5]
      \<and> turnOrder gs' = [3, 5, 1])"
  using initGame_seating[of gs playerCount] initGame_seating[of gs 3]
  by (simp add: getTurnOrder_def getPlayerTriangleIndices_def)

section \<open>The position key is injective\<close>

lemma of_char_digitChar: "d < 10 \<Longrightarrow> (of_char (digitChar d) :: nat) = 48 + d"
  unfolding digitChar_def of_char_of by simp

lemma digitChar_inj:
  assumes "d < 10" "e < 10" "digitChar d = digitChar e"
  shows "d = e"
proof -
  have "(48::nat) + d = 48 + e"
    using of_char_digitChar[OF assms(1)] of_char_digitChar[OF assms(2)] assms(3) by metis
  then show ?thesis by (rule add_left_imp_eq)
qed

lemma sep_codes: "(of_char CHR '','' :: nat) = 44" "(of_char CHR ''-'' :: nat) = 45"
  by simp_all

lemma digitChar_not_sep:
  assumes "d < 10"
  shows "digitChar d \<noteq> CHR '',''" "digitChar d \<noteq> CHR ''-''"
proof -
  have a: "(of_char (digitChar d) :: nat) = 48 + d" using assms by (rule of_char_digitChar)
  show "digitChar d \<noteq> CHR '',''"
  proof
    assume "digitChar d = CHR '',''"
    then have "(48::nat) + d = 44" using a sep_codes(1) by metis
    then show False by arith
  qed
  show "digitChar d \<noteq> CHR ''-''"
  proof
    assume "digitChar d = CHR ''-''"
    then have "(48::nat) + d = 45" using a sep_codes(2) by metis
    then show False by arith
  qed
qed

lemma showNat_unfold:
  "n < 10 \<Longrightarrow> showNat n = [digitChar n]"
  "\<not> n < 10 \<Longrightarrow> showNat n = showNat (n div 10) @ [digitChar (n mod 10)]"
  by (simp_all add: showNat.simps)

lemma showNat_not_Nil: "showNat n \<noteq> []"
  by (cases "n < 10") (simp_all add: showNat_unfold)

lemma showNat_digits: "c \<in> set (showNat n) \<Longrightarrow> \<exists>d<10. c = digitChar d"
proof (induct n rule: showNat.induct)
  case (1 n)
  show ?case
  proof (cases "n < 10")
    case True
    with 1(2) show ?thesis by (auto simp add: showNat_unfold)
  next
    case False
    with 1(2) have "c \<in> set (showNat (n div 10)) \<or> c = digitChar (n mod 10)"
      by (auto simp add: showNat_unfold)
    then show ?thesis
    proof
      assume "c \<in> set (showNat (n div 10))"
      with 1(1)[OF False] show ?thesis .
    next
      assume "c = digitChar (n mod 10)"
      moreover have "n mod 10 < 10" by simp
      ultimately show ?thesis by blast
    qed
  qed
qed

lemma showNat_inj: "showNat n = showNat m \<Longrightarrow> n = m"
proof (induct n arbitrary: m rule: showNat.induct)
  case (1 n)
  show ?case
  proof (cases "n < 10")
    case True
    show ?thesis
    proof (cases "m < 10")
      case True
      with \<open>n < 10\<close> 1(2) show ?thesis
        by (auto simp add: showNat_unfold dest: digitChar_inj)
    next
      case False
      with \<open>n < 10\<close> 1(2) have "[digitChar n] = showNat (m div 10) @ [digitChar (m mod 10)]"
        by (simp add: showNat_unfold)
      then have "showNat (m div 10) = []" by simp
      then show ?thesis by (simp add: showNat_not_Nil)
    qed
  next
    case False
    show ?thesis
    proof (cases "m < 10")
      case True
      with False 1(2) have "showNat (n div 10) @ [digitChar (n mod 10)] = [digitChar m]"
        by (simp add: showNat_unfold)
      then have "showNat (n div 10) = []" by simp
      then show ?thesis by (simp add: showNat_not_Nil)
    next
      case mf: False
      with False 1(2) have "showNat (n div 10) @ [digitChar (n mod 10)]
          = showNat (m div 10) @ [digitChar (m mod 10)]"
        by (simp add: showNat_unfold)
      then have a: "showNat (n div 10) = showNat (m div 10)"
        and b: "digitChar (n mod 10) = digitChar (m mod 10)" by simp_all
      from 1(1)[OF False a] have "n div 10 = m div 10" .
      moreover from b have "n mod 10 = m mod 10" by (intro digitChar_inj) simp_all
      ultimately show ?thesis by (metis div_mult_mod_eq)
    qed
  qed
qed

lemma showInt_chars: "c \<in> set (showInt i) \<Longrightarrow> c \<noteq> CHR '',''"
  using digitChar_not_sep(1) showNat_digits
  by (fastforce simp add: showInt_def split: if_splits)

lemma showInt_inj: "showInt i = showInt j \<Longrightarrow> i = j"
proof -
  assume eq: "showInt i = showInt j"
  have hd_nat: "hd (showNat n) \<noteq> CHR ''-''" for n
  proof -
    have "hd (showNat n) \<in> set (showNat n)" using showNat_not_Nil by simp
    then show ?thesis using showNat_digits digitChar_not_sep(2) by metis
  qed
  show ?thesis
  proof (cases "i < 0")
    case True
    show ?thesis
    proof (cases "j < 0")
      case True
      with \<open>i < 0\<close> eq have "nat (- i) = nat (- j)"
        by (simp add: showInt_def showNat_inj)
      with True \<open>i < 0\<close> show ?thesis by simp
    next
      case False
      with True eq have "CHR ''-'' # showNat (nat (- i)) = showNat (nat j)"
        by (simp add: showInt_def)
      then have "hd (showNat (nat j)) = CHR ''-''" by (metis list.sel(1))
      with hd_nat show ?thesis by blast
    qed
  next
    case False
    show ?thesis
    proof (cases "j < 0")
      case True
      with False eq have "showNat (nat i) = CHR ''-'' # showNat (nat (- j))"
        by (simp add: showInt_def)
      then have "hd (showNat (nat i)) = CHR ''-''" by (metis list.sel(1))
      with hd_nat show ?thesis by blast
    next
      case jf: False
      with False eq have "nat i = nat j" by (simp add: showInt_def showNat_inj)
      with False jf show ?thesis by simp
    qed
  qed
qed

lemma split_at_separator:
  assumes "xs @ c # ys = xs' @ c # ys'" "c \<notin> set xs" "c \<notin> set xs'"
  shows "xs = xs' \<and> ys = ys'"
  using assms
proof (induct xs arbitrary: xs')
  case Nil
  then show ?case by (cases xs') auto
next
  case (Cons a xs)
  then show ?case by (cases xs') auto
qed

lemma key_inj: "key p = key p' \<Longrightarrow> p = p'"
proof -
  assume "key p = key p'"
  then have "showInt (q p) @ CHR '','' # showInt (r p) = showInt (q p') @ CHR '','' # showInt (r p')"
    by (simp add: key_def)
  then have "showInt (q p) = showInt (q p') \<and> showInt (r p) = showInt (r p')"
    using showInt_chars by (intro split_at_separator) auto
  then show ?thesis by (auto dest: showInt_inj intro: HexPosition.expand)
qed

lemma key_eq_iff [simp]: "key p = key p' \<longleftrightarrow> p = p'"
  using key_inj by auto

section \<open>Step-moves and jump targets of a search (claims C5 and C1)\<close>

lemma steps_of_search:
  "filter isStep (snd (findMoves lim gs sp cp hj pth (V, ms)))
     = filter isStep ms @ (if hj \<or> key cp \<in> V then [] else stepMoves gs cp HEX_DIRECTIONS)"
  "filter isStep (snd (forEachDirection lim gs sp cp hj pth dirs st))
     = filter isStep (snd st) @ (if hj then [] else stepMoves gs cp dirs)"
  "filter isStep (snd (checkJumpLoop lim gs sp cp dir pth dist fp pd (V, ms)))
     = filter isStep ms"
proof (induct lim gs sp cp hj pth "(V, ms)" and lim gs sp cp hj pth dirs st
    and lim gs sp cp dir pth dist fp pd "(V, ms)"
    arbitrary: V ms and and V ms rule: findMoves_forEachDirection_checkJumpLoop.induct)
  case (1 lim gs startPos currentPos hasJumped currentPath visited moves)
  then show ?case
    by (auto simp add: findMoves.simps[of lim gs startPos currentPos hasJumped currentPath visited moves])
next
  case (2 lim gs startPos currentPos hasJumped currentPath s)
  show ?case by (simp add: forEachDirection.simps stepMoves_def)
next
  case (3 lim gs startPos currentPos hasJumped currentPath dir dirs visited moves)
  note eq = forEachDirection.simps(2)[of lim gs startPos currentPos hasJumped currentPath dir dirs visited moves]
  obtain V1 ms1 where r1: "checkJumpLoop lim gs startPos currentPos dir currentPath 1 False 0
      (visited, (if isPositionOnBoard gs (add currentPos dir)
                       \<and> \<not> isPositionOccupied gs (add currentPos dir) \<and> \<not> hasJumped
                    then moves @ [createSimpleMove (add currentPos dir)] else moves)) = (V1, ms1)"
    by (cases "checkJumpLoop lim gs startPos currentPos dir currentPath 1 False 0
      (visited, (if isPositionOnBoard gs (add currentPos dir)
                       \<and> \<not> isPositionOccupied gs (add currentPos dir) \<and> \<not> hasJumped
                    then moves @ [createSimpleMove (add currentPos dir)] else moves))")
  from "3.hyps"(1)[OF refl refl] r1
  have a: "filter isStep ms1 = filter isStep (if isPositionOnBoard gs (add currentPos dir)
                       \<and> \<not> isPositionOccupied gs (add currentPos dir) \<and> \<not> hasJumped
                    then moves @ [createSimpleMove (add currentPos dir)] else moves)"
    by simp
  from "3.hyps"(2)[OF refl refl] r1
  have b: "filter isStep (snd (forEachDirection lim gs startPos currentPos hasJumped currentPath dirs (V1, ms1)))
      = filter isStep ms1 @ (if hasJumped then [] else stepMoves gs currentPos dirs)"
    by simp
  show ?case
    unfolding eq Let_def r1 b a
    by (simp add: stepMoves_def createSimpleMove_def)
next
  case (4 lim gs startPos currentPos dir currentPath distance foundPiece pieceDistance visited moves)
  note eq = checkJumpLoop.simps[of lim gs startPos currentPos dir currentPath distance foundPiece pieceDistance visited moves]
  note ih = "4.hyps"(1)[OF _ refl _ refl] "4.hyps"(2)[OF _ refl _ refl]
    "4.hyps"(3)[OF _ refl _ refl _ _ _ _ refl] "4.hyps"(4)[OF _ refl _ refl]
  show ?case
    using ih
    by (auto simp add: eq Let_def createJumpMove_def)
qed

lemma sameParity_refl [simp]: "sameParity p p"
  by (simp add: sameParity_def)

lemma sameParity_trans: "sameParity a b \<Longrightarrow> sameParity b c \<Longrightarrow> sameParity a c"
proof -
  assume "sameParity a b" "sameParity b c"
  then have "even ((q a - q b) + (q b - q c))" "even ((r a - r b) + (r b - r c))"
    unfolding sameParity_def by (simp_all only: even_add)
  then show ?thesis by (simp add: sameParity_def)
qed

lemma sameParity_landing: "sameParity (add cp (scale dir (pd * 2))) cp"
  by (simp add: sameParity_def add_def scale_def)

lemma searchExtends_refl: "W \<subseteq> fst s \<Longrightarrow> searchExtends W cp s s"
  by (simp add: searchExtends_def newJumps_def jumpTargets_def)

lemma searchExtends_step:
  "searchExtends W cp (V, ms @ [createSimpleMove a]) s' \<Longrightarrow> searchExtends W cp (V, ms) s'"
  by (auto simp add: searchExtends_def newJumps_def jumpTargets_def createSimpleMove_def)

lemma searchExtends_trans:
  assumes "searchExtends W cp s s1" "searchExtends (fst s1) cp s1 s2"
  shows "searchExtends W cp s s2"
proof -
  from assms(1) obtain n1 where n1: "fst s \<subseteq> fst s1" "W \<subseteq> fst s1" "snd s1 = snd s @ n1"
    "newJumps W (fst s1) cp n1" unfolding searchExtends_def by blast
  from assms(2) obtain n2 where n2: "fst s1 \<subseteq> fst s2" "snd s2 = snd s1 @ n2"
    "newJumps (fst s1) (fst s2) cp n2" unfolding searchExtends_def by blast
  have "newJumps W (fst s2) cp (n1 @ n2)"
    using n1(2,4) n2(1,3) unfolding newJumps_def jumpTargets_def
    by (auto simp add: image_iff)
  with n1 n2 show ?thesis unfolding searchExtends_def by auto
qed

lemma searchExtends_jump:
  assumes "key L \<notin> V" "sameParity L cp"
    and "searchExtends (insert (key L) V) L (V, ms @ [createJumpMove L pth]) s'"
  shows "searchExtends V cp (V, ms) s'"
proof -
  from assms(3) obtain n where n: "V \<subseteq> fst s'" "key L \<in> fst s'"
    "snd s' = (ms @ [createJumpMove L pth]) @ n" "newJumps (insert (key L) V) (fst s') L n"
    unfolding searchExtends_def by auto
  have "newJumps V (fst s') cp (createJumpMove L pth # n)"
    using n(2,4) assms(1,2) unfolding newJumps_def jumpTargets_def
    by (auto simp add: createJumpMove_def intro: sameParity_trans)
  with n show ?thesis unfolding searchExtends_def by auto
qed

lemma search_invariant:
  "searchExtends (insert (key cp) V) cp (V, ms) (findMoves lim gs sp cp hj pth (V, ms))"
  "searchExtends (fst st) cp st (forEachDirection lim gs sp cp hj pth dirs st)"
  "searchExtends V cp (V, ms) (checkJumpLoop lim gs sp cp dir pth dist fp pd (V, ms))"
proof (induct lim gs sp cp hj pth "(V, ms)" and lim gs sp cp hj pth dirs st
    and lim gs sp cp dir pth dist fp pd "(V, ms)"
    arbitrary: V ms and and V ms rule: findMoves_forEachDirection_checkJumpLoop.induct)
  case (1 lim gs startPos currentPos hasJumped currentPath visited moves)
  show ?case
  proof (cases "key currentPos \<in> visited")
    case True
    then show ?thesis
      by (simp add: findMoves.simps[of lim gs startPos currentPos hasJumped currentPath visited moves]
          searchExtends_refl)
  next
    case False
    from 1[OF False]
    have "searchExtends (insert (key currentPos) visited) currentPos (insert (key currentPos) visited, moves)
      (forEachDirection lim gs startPos currentPos hasJumped currentPath HEX_DIRECTIONS
             (insert (key currentPos) visited, moves))" by simp
    then have "searchExtends (insert (key currentPos) visited) currentPos (visited, moves)
      (forEachDirection lim gs startPos currentPos hasJumped currentPath HEX_DIRECTIONS
             (insert (key currentPos) visited, moves))"
      unfolding searchExtends_def by auto
    with False show ?thesis
      by (simp add: findMoves.simps[of lim gs startPos currentPos hasJumped currentPath visited moves])
  qed
next
  case (2 lim gs startPos currentPos hasJumped currentPath s)
  show ?case by (simp add: forEachDirection.simps searchExtends_refl)
next
  case (3 lim gs startPos currentPos hasJumped currentPath dir dirs visited moves)
  note eq = forEachDirection.simps(2)[of lim gs startPos currentPos hasJumped currentPath dir dirs visited moves]
  let ?m1 = "(if isPositionOnBoard gs (add currentPos dir)
                       \<and> \<not> isPositionOccupied gs (add currentPos dir) \<and> \<not> hasJumped
                    then moves @ [createSimpleMove (add currentPos dir)] else moves)"
  let ?s1 = "checkJumpLoop lim gs startPos currentPos dir currentPath 1 False 0 (visited, ?m1)"
  have "searchExtends visited currentPos (visited, ?m1) ?s1"
    using "3.hyps"(1)[OF refl refl] .
  then have a: "searchExtends visited currentPos (visited, moves) ?s1"
    by (auto intro: searchExtends_step split: if_splits)
  have b: "searchExtends (fst ?s1) currentPos ?s1
      (forEachDirection lim gs startPos currentPos hasJumped currentPath dirs ?s1)"
    using "3.hyps"(2)[OF refl refl] .
  from searchExtends_trans[OF a b] show ?case
    unfolding eq Let_def by simp
next
  case (4 lim gs startPos currentPos dir currentPath distance foundPiece pieceDistance visited moves)
  note eq = checkJumpLoop.simps[of lim gs startPos currentPos dir currentPath distance foundPiece pieceDistance visited moves]
  note ih = "4.hyps"(1)[OF _ refl _ refl] "4.hyps"(2)[OF _ refl _ refl]
    "4.hyps"(3)[OF _ refl _ refl _ _ _ _ refl] "4.hyps"(4)[OF _ refl _ refl]
  let ?L = "add currentPos (scale dir distance)"
  have J: "searchExtends visited currentPos (visited, moves)
      (findMoves lim gs startPos ?L True (currentPath @ [?L])
         (visited, moves @ [createJumpMove ?L (currentPath @ [?L])]))"
    if "distance \<le> lim" "isPositionOnBoard gs ?L" "foundPiece" "\<not> isPositionOccupied gs ?L"
      "distance = pieceDistance * 2" "key ?L \<notin> visited"
  proof (rule searchExtends_jump[OF that(6)])
    show "sameParity ?L currentPos" unfolding that(5) by (rule sameParity_landing)
    show "searchExtends (insert (key ?L) visited) ?L
        (visited, moves @ [createJumpMove ?L (currentPath @ [?L])])
        (findMoves lim gs startPos ?L True (currentPath @ [?L])
           (visited, moves @ [createJumpMove ?L (currentPath @ [?L])]))"
      using ih(3) that by simp
  qed
  show ?case
    using ih(1,2,4) J
    by (auto simp add: eq Let_def searchExtends_refl)
qed


lemma distinct_map_partition:
  assumes "distinct (map f (filter P xs))" "distinct (map f (filter (\<lambda>x. \<not> P x) xs))"
    and "\<And>x y. x \<in> set xs \<Longrightarrow> y \<in> set xs \<Longrightarrow> P x \<Longrightarrow> \<not> P y \<Longrightarrow> f x \<noteq> f y"
  shows "distinct (map f xs)"
  using assms
proof (induct xs)
  case Nil
  show ?case by simp
next
  case (Cons a xs)
  have ih: "distinct (map f xs)"
    using Cons.prems by (intro Cons.hyps) (auto split: if_splits)
  have "f a \<notin> f ` set xs"
  proof
    assume "f a \<in> f ` set xs"
    then obtain y where y: "y \<in> set xs" "f a = f y" by auto
    show False
    proof (cases "P a")
      case True
      show False
      proof (cases "P y")
        case True
        with \<open>P a\<close> Cons.prems(1) y show False by (auto simp add: image_iff)
      next
        case False
        with \<open>P a\<close> Cons.prems(3)[of a y] y show False by simp
      qed
    next
      case False
      show False
      proof (cases "P y")
        case True
        with False Cons.prems(3)[of y a] y show False by simp
      next
        case py: False
        with False Cons.prems(2) y show False by (auto simp add: image_iff)
      qed
    qed
  qed
  with ih show ?case by simp
qed

lemma not_step_iff_jump: "moveType m \<noteq> Move \<longleftrightarrow> moveType m = Jump"
  by (cases "moveType m") simp_all

lemma add_inj: "add s a = add s b \<Longrightarrow> a = b"
  by (cases a; cases b) (simp add: add_def)

lemma distinct_directions: "distinct HEX_DIRECTIONS"
  by (simp add: HEX_DIRECTIONS_def EAST_def NORTHEAST_def NORTHWEST_def WEST_def SOUTHWEST_def
      SOUTHEAST_def)

lemma step_changes_parity: "dir \<in> set HEX_DIRECTIONS \<Longrightarrow> \<not> sameParity (add s dir) s"
  by (auto simp add: HEX_DIRECTIONS_def EAST_def NORTHEAST_def NORTHWEST_def WEST_def
      SOUTHWEST_def SOUTHEAST_def sameParity_def add_def)

lemma targets_stepMoves:
  "map targetPos (stepMoves gs s dirs)
     = filter (\<lambda>p. isPositionOnBoard gs p \<and> \<not> isPositionOccupied gs p) (map (add s) dirs)"
  by (simp add: stepMoves_def createSimpleMove_def comp_def)

text \<open>
  Claim C1. The moves returned by \<open>findValidMoves\<close> have pairwise distinct targets, for
  every game state and every start position: no two moves, steps or jumps, share a
  \<open>targetPos\<close>.
\<close>

theorem no_duplicate_destinations: "distinct (map targetPos (findValidMoves gs startPos))"
proof -
  let ?res = "findMoves 16 gs startPos startPos False [] ({}, [])"
  let ?new = "snd ?res"
  have "searchExtends {key startPos} startPos ({}, []) ?res"
    using search_invariant(1)[of startPos "{}" "[]" 16 gs startPos False "[]"] by simp
  then have nj: "newJumps {key startPos} (fst ?res) startPos ?new"
    unfolding searchExtends_def by auto
  have steps: "filter (\<lambda>m. moveType m = Move) ?new = stepMoves gs startPos HEX_DIRECTIONS"
    using steps_of_search(1)[of 16 gs startPos startPos False "[]" "{}" "[]"] by simp
  have "distinct (map targetPos ?new)"
  proof (rule distinct_map_partition[where P = "\<lambda>m. moveType m = Move"])
    have "distinct (map (add startPos) HEX_DIRECTIONS)"
      using distinct_directions by (simp add: distinct_map inj_on_def add_inj)
    then show "distinct (map targetPos (filter (\<lambda>m. moveType m = Move) ?new))"
      unfolding steps targets_stepMoves by (rule distinct_filter)
  next
    have "distinct (map key (jumpTargets ?new))" using nj unfolding newJumps_def by simp
    then have "distinct (jumpTargets ?new)" by (simp add: distinct_map)
    then show "distinct (map targetPos (filter (\<lambda>m. moveType m \<noteq> Move) ?new))"
      by (simp add: jumpTargets_def not_step_iff_jump)
  next
    fix x y
    assume x: "x \<in> set ?new" "moveType x = Move" and y: "y \<in> set ?new" "moveType y \<noteq> Move"
    from x have "targetPos x \<in> set (map targetPos (filter (\<lambda>m. moveType m = Move) ?new))"
      by auto
    then have "targetPos x \<in> set (map (add startPos) HEX_DIRECTIONS)"
      unfolding steps targets_stepMoves by auto
    then have px: "\<not> sameParity (targetPos x) startPos"
      using step_changes_parity by auto
    from y have "targetPos y \<in> set (jumpTargets ?new)"
      by (auto simp add: jumpTargets_def not_step_iff_jump)
    then have "sameParity (targetPos y) startPos" using nj unfolding newJumps_def by blast
    with px show "targetPos x \<noteq> targetPos y" by auto
  qed
  then show ?thesis by (simp add: findValidMoves_def)
qed

text \<open>
  Claim C5. The step-moves of the result are exactly the moves to the adjacent cells of the
  start that are on the board and unoccupied, one per direction and in direction order;
  and a search continued from a landing spot (\<open>hasJumped\<close> true) adds no step-move.
\<close>

theorem steps_only_from_start:
  "filter (\<lambda>m. moveType m = Move) (findValidMoves gs startPos)
     = map createSimpleMove
         (filter (\<lambda>p. isPositionOnBoard gs p \<and> \<not> isPositionOccupied gs p)
            (map (add startPos) HEX_DIRECTIONS))
   \<and> filter (\<lambda>m. moveType m = Move) (snd (findMoves lim gs startPos landing True path (V, ms)))
     = filter (\<lambda>m. moveType m = Move) ms"
  using steps_of_search(1)[of 16 gs startPos startPos False "[]" "{}" "[]"]
    steps_of_search(1)[of lim gs startPos landing True path V ms]
  by (simp add: findValidMoves_def stepMoves_def)

section \<open>The cells of the standard board\<close>

lemma set_baseTriangle: "p \<in> set baseTriangle \<longleftrightarrow> inBaseTriangle p"
proof
  assume "p \<in> set baseTriangle"
  then show "inBaseTriangle p" by (auto simp add: baseTriangle_def inBaseTriangle_def)
next
  assume a: "inBaseTriangle p"
  obtain x y where p: "p = HexPosition x y" by (cases p)
  from a p have b: "y \<le> - 5" "x \<le> 4" "- 4 \<le> x + y" by (simp_all add: inBaseTriangle_def)
  then have "y = - 8 \<or> y = - 7 \<or> y = - 6 \<or> y = - 5" by arith
  moreover from b have "x = 1 \<or> x = 2 \<or> x = 3 \<or> x = 4" by arith
  ultimately show "p \<in> set baseTriangle"
    using b unfolding p baseTriangle_def by (elim disjE) simp_all
qed

lemma rotate60CCW_CW: "rotate60CCW (rotate60CW p) = p"
  by (cases p) (simp add: rotate60CW_def rotate60CCW_def)

lemma funpow_CCW_CW: "(rotate60CCW ^^ n) ((rotate60CW ^^ n) p) = p"
proof (induct n arbitrary: p)
  case 0
  show ?case by simp
next
  case (Suc n)
  have "(rotate60CCW ^^ Suc n) ((rotate60CW ^^ Suc n) p)
      = (rotate60CCW ^^ n) (rotate60CCW (rotate60CW ((rotate60CW ^^ n) p)))"
    by (simp add: funpow_swap1)
  then show ?case by (simp add: rotate60CCW_CW Suc)
qed

lemma funpow_CW_CCW: "(rotate60CW ^^ n) ((rotate60CCW ^^ n) p) = p"
proof (induct n arbitrary: p)
  case 0
  show ?case by simp
next
  case (Suc n)
  have "(rotate60CW ^^ Suc n) ((rotate60CCW ^^ Suc n) p)
      = (rotate60CW ^^ n) (rotate60CW (rotate60CCW ((rotate60CCW ^^ n) p)))"
    by (simp add: funpow_swap1)
  then show ?case by (simp add: rotate60CW_CCW Suc)
qed


lemma generateTriangle_cw:
  assumes "0 \<le> N" "N \<le> 5"
  shows "generateTriangle N = map (rotate60CW ^^ nat N) baseTriangle"
  using assms ccw_is_cw[OF assms] by (simp add: generateTriangle_def jsRem_nonneg ccw_is_cw)

lemma set_generateTriangle:
  assumes "0 \<le> N" "N \<le> 5"
  shows "p \<in> set (generateTriangle N) \<longleftrightarrow> inBaseTriangle ((rotate60CCW ^^ nat N) p)"
proof -
  have "p \<in> set (generateTriangle N) \<longleftrightarrow> (\<exists>b\<in>set baseTriangle. p = (rotate60CW ^^ nat N) b)"
    by (auto simp add: generateTriangle_cw[OF assms])
  also have "\<dots> \<longleftrightarrow> (rotate60CCW ^^ nat N) p \<in> set baseTriangle"
    by (metis funpow_CCW_CW funpow_CW_CCW)
  finally show ?thesis by (simp add: set_baseTriangle)
qed

lemma set_generateAllTriangles:
  "(\<exists>t\<in>set generateAllTriangles. p \<in> set t) \<longleftrightarrow>
     inBaseTriangle p \<or> inBaseTriangle (rotate60CCW p)
     \<or> inBaseTriangle ((rotate60CCW ^^ 2) p) \<or> inBaseTriangle ((rotate60CCW ^^ 3) p)
     \<or> inBaseTriangle ((rotate60CCW ^^ 4) p) \<or> inBaseTriangle ((rotate60CCW ^^ 5) p)"
  using set_generateTriangle[of 0 p] set_generateTriangle[of 1 p] set_generateTriangle[of 2 p]
    set_generateTriangle[of 3 p] set_generateTriangle[of 4 p] set_generateTriangle[of 5 p]
  by (simp add: generateAllTriangles_def)

lemma onStar_decomp:
  "onStar p \<longleftrightarrow>
     inHexagon p \<or> inBaseTriangle p \<or> inBaseTriangle (rotate60CCW p)
     \<or> inBaseTriangle ((rotate60CCW ^^ 2) p) \<or> inBaseTriangle ((rotate60CCW ^^ 3) p)
     \<or> inBaseTriangle ((rotate60CCW ^^ 4) p) \<or> inBaseTriangle ((rotate60CCW ^^ 5) p)"
proof -
  obtain x y where p: "p = HexPosition x y" by (cases p)
  show ?thesis
    unfolding p onStar_def inHexagon_def inBaseTriangle_def
    by (simp add: eval_nat_numeral rotate60CCW_def) arith
qed

lemma keys_update: "fst ` set (AList.update k v b) = insert k (fst ` set b)"
  by (simp add: dom_update)

lemma keys_fold_update:
  "fst ` set (fold (\<lambda>pos b. AList.update (k pos) (f pos) b) ps b0) = k ` set ps \<union> fst ` set b0"
  by (induct ps arbitrary: b0) (auto simp add: keys_update)

lemma keys_fold_triangles:
  "fst ` set (fold (\<lambda>(triangle, triangleIndex).
        fold (\<lambda>pos b. AList.update (k pos) (f pos triangleIndex) b) triangle) zs b0)
     = k ` (\<Union>z\<in>set zs. set (fst z)) \<union> fst ` set b0"
proof (induct zs arbitrary: b0)
  case Nil
  show ?case by simp
next
  case (Cons z zs)
  obtain t i where z: "z = (t, i)" by (cases z)
  show ?case
    unfolding z by (simp add: Cons keys_fold_update) blast
qed

lemma keys_fold_row:
  "fst ` set (fold (\<lambda>y b. if C y then AList.update (k y) (f y) b else b) ys b0)
     = k ` {y \<in> set ys. C y} \<union> fst ` set b0"
proof (induct ys arbitrary: b0)
  case Nil
  show ?case by simp
next
  case (Cons a ys)
  show ?case
    by (auto simp add: Cons keys_update)
qed

lemma keys_fold_centre:
  "fst ` set (fold (\<lambda>x. fold (\<lambda>y b. if C x y then AList.update (k x y) (f x y) b else b) ys) xs b0)
     = (\<lambda>(x, y). k x y) ` {(x, y). x \<in> set xs \<and> y \<in> set ys \<and> C x y} \<union> fst ` set b0"
proof (induct xs arbitrary: b0)
  case Nil
  show ?case by simp
next
  case (Cons a xs)
  have "fst ` set (fold (\<lambda>x. fold (\<lambda>y b. if C x y then AList.update (k x y) (f x y) b else b) ys) (a # xs) b0)
      = (\<lambda>(x, y). k x y) ` {(x, y). x \<in> set xs \<and> y \<in> set ys \<and> C x y}
        \<union> (k a ` {y \<in> set ys. C a y} \<union> fst ` set b0)"
    by (simp add: Cons keys_fold_row)
  also have "\<dots> = (\<lambda>(x, y). k x y) ` {(x, y). x \<in> set (a # xs) \<and> y \<in> set ys \<and> C x y} \<union> fst ` set b0"
    by auto
  finally show ?case .
qed

lemma standard_board_keys:
  "fst ` set (board (initializeBoard newGameState))
     = key ` ({p. inHexagon p} \<union> (\<Union>t\<in>set generateAllTriangles. set t))"
proof -
  have tri: "(\<Union>z\<in>set (zip generateAllTriangles (map int [0 ..< length generateAllTriangles])). set (fst z))
      = (\<Union>t\<in>set generateAllTriangles. set t)"
  proof -
    have "fst ` set (zip generateAllTriangles (map int [0 ..< length generateAllTriangles]))
        = set generateAllTriangles"
      by (metis length_map length_upt map_fst_zip set_map diff_zero)
    then show ?thesis by (metis UN_simps(10))
  qed
  have hex: "(\<lambda>(x, y). key (HexPosition x y)) `
        {(x, y). x \<in> set [- 4 .. 4] \<and> y \<in> set [- 4 .. 4] \<and> \<bar>- x - y\<bar> \<le> 4}
      = key ` {p. inHexagon p}"
  proof -
    have "{p. inHexagon p} = (\<lambda>(x, y). HexPosition x y) `
        {(x, y). x \<in> set [- 4 .. 4] \<and> y \<in> set [- 4 .. 4] \<and> \<bar>- x - y\<bar> \<le> 4}"
    proof (intro set_eqI iffI)
      fix p assume "p \<in> {p. inHexagon p}"
      then show "p \<in> (\<lambda>(x, y). HexPosition x y) `
        {(x, y). x \<in> set [- 4 .. 4] \<and> y \<in> set [- 4 .. 4] \<and> \<bar>- x - y\<bar> \<le> 4}"
        by (cases p) (auto simp add: inHexagon_def image_iff)
    next
      fix p assume "p \<in> (\<lambda>(x, y). HexPosition x y) `
        {(x, y). x \<in> set [- 4 .. 4] \<and> y \<in> set [- 4 .. 4] \<and> \<bar>- x - y\<bar> \<le> 4}"
      then show "p \<in> {p. inHexagon p}"
        by (auto simp add: inHexagon_def)
    qed
    then show ?thesis by (simp add: image_image case_prod_unfold)
  qed
  show ?thesis
    unfolding initializeBoard_def newGameState_def Let_def
    by (simp add: keys_fold_triangles keys_fold_centre tri hex image_Un Un_commute
        del: set_upto upto_rec_numeral upto.simps)
qed

lemma standard_board_cells:
  "isPositionOnBoard (initializeBoard newGameState) p \<longleftrightarrow> onStar p"
proof -
  have "isPositionOnBoard (initializeBoard newGameState) p \<longleftrightarrow>
      inHexagon p \<or> (\<exists>t\<in>set generateAllTriangles. p \<in> set t)"
    unfolding onBoard_iff standard_board_keys by auto
  then show ?thesis
    by (simp add: set_generateAllTriangles onStar_decomp)
qed

section \<open>Lines on the standard board\<close>

lemma direction_cases:
  "dir \<in> set HEX_DIRECTIONS \<longleftrightarrow>
     dir = HexPosition 1 0 \<or> dir = HexPosition 1 (- 1) \<or> dir = HexPosition 0 (- 1)
     \<or> dir = HexPosition (- 1) 0 \<or> dir = HexPosition (- 1) 1 \<or> dir = HexPosition 0 1"
  by (auto simp add: HEX_DIRECTIONS_def EAST_def NORTHEAST_def NORTHWEST_def WEST_def
      SOUTHWEST_def SOUTHEAST_def)

lemma star_line_convex:
  assumes "dir \<in> set HEX_DIRECTIONS" "onStar (add p (scale dir i))" "onStar (add p (scale dir k))"
    "i \<le> j" "j \<le> k"
  shows "onStar (add p (scale dir j))"
proof -
  obtain x y where p: "p = HexPosition x y" by (cases p)
  from assms(1) consider "dir = HexPosition 1 0" | "dir = HexPosition 1 (- 1)"
    | "dir = HexPosition 0 (- 1)" | "dir = HexPosition (- 1) 0" | "dir = HexPosition (- 1) 1"
    | "dir = HexPosition 0 1"
    unfolding direction_cases by blast
  then show ?thesis
  proof cases
    case 1 with assms(2-) show ?thesis unfolding p onStar_def add_def scale_def by simp arith
  next
    case 2 with assms(2-) show ?thesis unfolding p onStar_def add_def scale_def by simp arith
  next
    case 3 with assms(2-) show ?thesis unfolding p onStar_def add_def scale_def by simp arith
  next
    case 4 with assms(2-) show ?thesis unfolding p onStar_def add_def scale_def by simp arith
  next
    case 5 with assms(2-) show ?thesis unfolding p onStar_def add_def scale_def by simp arith
  next
    case 6 with assms(2-) show ?thesis unfolding p onStar_def add_def scale_def by simp arith
  qed
qed

lemma star_line_span:
  assumes "dir \<in> set HEX_DIRECTIONS" "onStar (add p (scale dir i))" "onStar (add p (scale dir j))"
  shows "j - i \<le> 12"
proof -
  obtain x y where p: "p = HexPosition x y" by (cases p)
  from assms(1) consider "dir = HexPosition 1 0" | "dir = HexPosition 1 (- 1)"
    | "dir = HexPosition 0 (- 1)" | "dir = HexPosition (- 1) 0" | "dir = HexPosition (- 1) 1"
    | "dir = HexPosition 0 1"
    unfolding direction_cases by blast
  then show ?thesis
  proof cases
    case 1 with assms(2-) show ?thesis unfolding p onStar_def add_def scale_def by simp arith
  next
    case 2 with assms(2-) show ?thesis unfolding p onStar_def add_def scale_def by simp arith
  next
    case 3 with assms(2-) show ?thesis unfolding p onStar_def add_def scale_def by simp arith
  next
    case 4 with assms(2-) show ?thesis unfolding p onStar_def add_def scale_def by simp arith
  next
    case 5 with assms(2-) show ?thesis unfolding p onStar_def add_def scale_def by simp arith
  next
    case 6 with assms(2-) show ?thesis unfolding p onStar_def add_def scale_def by simp arith
  qed
qed

section \<open>States on the standard cells, and the example state\<close>

lemma standardCells_onBoard: "standardCells gs \<Longrightarrow> isPositionOnBoard gs p \<longleftrightarrow> onStar p"
proof -
  assume "standardCells gs"
  then have "fst ` set (board gs) = fst ` set (board (initializeBoard newGameState))"
    unfolding standardCells_def by (metis set_map)
  then show ?thesis
    using standard_board_cells[of p] by (simp add: onBoard_iff)
qed

lemma fold_invariant:
  assumes "Q b0" "\<And>x b. Q b \<Longrightarrow> Q (f x b)"
  shows "Q (fold f xs b0)"
  using assms(1) by (induct xs arbitrary: b0) (simp_all add: assms(2))

lemma noPieces_update: "noPieces b \<Longrightarrow> noPieces (AList.update k (newBoardCell pos hi) b)"
  by (simp add: noPieces_def update_conv' newBoardCell_def)

lemma noPieces_row:
  "noPieces b \<Longrightarrow> noPieces (fold (\<lambda>r b.
                    (if \<bar>- x - r\<bar> \<le> 4
                     then AList.update (key (HexPosition x r)) (newBoardCell (HexPosition x r) (- 1)) b
                     else b)) rs b)"
  by (rule fold_invariant[where Q = noPieces]) (simp_all add: noPieces_update)

lemma noPieces_triangle:
  "noPieces b \<Longrightarrow> noPieces (fold (\<lambda>pos b. AList.update (key pos) (newBoardCell pos i) b) t b)"
  by (rule fold_invariant[where Q = noPieces]) (simp_all add: noPieces_update)

lemma noPieces_centre:
  "noPieces b \<Longrightarrow> noPieces (fold (\<lambda>x. fold (\<lambda>r b.
                    (if \<bar>- x - r\<bar> \<le> 4
                     then AList.update (key (HexPosition x r)) (newBoardCell (HexPosition x r) (- 1)) b
                     else b)) rs) xs b)"
  by (rule fold_invariant[where Q = noPieces]) (simp_all add: noPieces_row)

lemma initializeBoard_noPieces: "noPieces (board (initializeBoard gs))"
proof -
  have "noPieces []" by (simp add: noPieces_def)
  then have centre: "noPieces (fold (\<lambda>x. fold (\<lambda>r b.
                    (if \<bar>- x - r\<bar> \<le> 4
                     then AList.update (key (HexPosition x r)) (newBoardCell (HexPosition x r) (- 1)) b
                     else b)) [- 4 .. 4]) [- 4 .. 4] [])"
    by (rule noPieces_centre)
  have "noPieces (fold (\<lambda>(triangle, triangleIndex).
                    fold (\<lambda>pos b. AList.update (key pos) (newBoardCell pos triangleIndex) b) triangle)
              zs b0)" if "noPieces b0" for zs b0
    using that
    by (rule fold_invariant[where Q = noPieces]) (simp add: case_prod_unfold noPieces_triangle)
  from this[OF centre] show ?thesis
    unfolding initializeBoard_def Let_def by simp
qed

lemma initializeBoard_unoccupied: "\<not> isPositionOccupied (initializeBoard gs) p"
  using initializeBoard_noPieces[of gs]
  by (auto simp add: isPositionOccupied_def getBoardCell_def hasPiece_def noPieces_def
      split: option.splits)

lemma placePiece_keys: "map fst (board (placePiece gs pos pc)) = map fst (board gs)"
proof (cases "getBoardCell gs pos")
  case None
  then show ?thesis by (simp add: placePiece_def)
next
  case (Some cell)
  then have "key pos \<in> set (map fst (board gs))"
    unfolding getBoardCell_def by (metis map_of_eq_None_iff option.distinct(1) set_map)
  with Some show ?thesis by (simp add: placePiece_def update_keys)
qed

lemma placePiece_onBoard: "isPositionOnBoard (placePiece gs pos pc) p = isPositionOnBoard gs p"
  unfolding onBoard_iff by (metis placePiece_keys set_map)

lemma placePiece_occupied:
  "isPositionOccupied (placePiece gs pos pc) p \<longleftrightarrow>
     (isPositionOnBoard gs pos \<and> p = pos) \<or> isPositionOccupied gs p"
proof (cases "getBoardCell gs pos")
  case None
  then show ?thesis
    by (simp add: placePiece_def isPositionOnBoard_def getBoardCell_def)
next
  case (Some cell)
  then show ?thesis
    by (simp add: placePiece_def isPositionOccupied_def isPositionOnBoard_def getBoardCell_def
        update_conv' hasPiece_def setPiece_def)
qed

lemma standardCells_initializeBoard: "standardCells (initializeBoard newGameState)"
  by (simp add: standardCells_def)

lemma standardCells_placePiece: "standardCells gs \<Longrightarrow> standardCells (placePiece gs pos pc)"
  by (simp add: standardCells_def placePiece_keys)

lemma exampleState_cells: "standardCells exampleState"
  unfolding exampleState_def
  by (intro standardCells_placePiece standardCells_initializeBoard)

lemma exampleState_onBoard: "isPositionOnBoard exampleState p \<longleftrightarrow> onStar p"
  by (rule standardCells_onBoard[OF exampleState_cells])

lemma exampleState_occupied:
  "isPositionOccupied exampleState p \<longleftrightarrow>
     p = HexPosition 0 0 \<or> p = HexPosition 0 1 \<or> p = HexPosition 1 1"
proof -
  have "onStar (HexPosition 0 0)" "onStar (HexPosition 0 1)" "onStar (HexPosition 1 1)"
    by (simp_all add: onStar_def)
  then show ?thesis
    unfolding exampleState_def
    by (simp add: placePiece_occupied placePiece_onBoard initializeBoard_unoccupied
        standard_board_cells) blast
qed

text \<open>
  Every operation on the game state keeps the keys of the board, so every state of a game
  started by \<open>initGame\<close> is on the standard cells.
\<close>

lemma movePiece_keys: "map fst (board (snd (movePiece gs a b))) = map fst (board gs)"
proof (cases "getBoardCell gs a")
  case None
  then show ?thesis by (simp add: movePiece_def)
next
  case fc: (Some fromCell)
  show ?thesis
  proof (cases "getBoardCell gs b")
    case None
    with fc show ?thesis by (simp add: movePiece_def)
  next
    case tc: (Some toCell)
    have ka: "key a \<in> set (map fst (board gs))"
      using fc unfolding getBoardCell_def by (metis map_of_eq_None_iff option.distinct(1) set_map)
    have kb: "key b \<in> set (map fst (board gs))"
      using tc unfolding getBoardCell_def by (metis map_of_eq_None_iff option.distinct(1) set_map)
    show ?thesis
      using fc tc ka kb
      by (auto simp add: movePiece_def removePiece_def Let_def update_keys split: option.splits)
  qed
qed

lemma removePieceAt_keys: "map fst (board (snd (removePieceAt gs pos))) = map fst (board gs)"
proof (cases "getBoardCell gs pos")
  case None
  then show ?thesis by (simp add: removePieceAt_def)
next
  case (Some cell)
  then have "key pos \<in> set (map fst (board gs))"
    unfolding getBoardCell_def by (metis map_of_eq_None_iff option.distinct(1) set_map)
  with Some show ?thesis by (simp add: removePieceAt_def removePiece_def update_keys)
qed

lemma reset_keys: "map fst (board (reset gs)) = map fst (board gs)"
  by (simp add: reset_def case_prod_unfold comp_def)

lemma initializeBoard_board:
  "homeSpaces gs = homeSpaces gs' \<Longrightarrow> board (initializeBoard gs) = board (initializeBoard gs')"
  by (simp add: initializeBoard_def Let_def)

lemma spawnPieces_keys:
  "spawnPiecesForPlayer g i = Inr g' \<Longrightarrow> map fst (board g') = map fst (board g)"
proof -
  have "map fst (board (fold (\<lambda>pos g.
                   (let pc = newPiece pos home;
                        g1 = placePiece g pos pc
                    in g1\<lparr>players := (players g1)[i := addPiecePosition (players g1 ! i) (key pos)]\<rparr>))
                 ps g)) = map fst (board g)" for ps home
    by (induct ps arbitrary: g) (simp_all add: Let_def placePiece_keys)
  then show "spawnPiecesForPlayer g i = Inr g' \<Longrightarrow> map fst (board g') = map fst (board g)"
    by (auto simp add: spawnPiecesForPlayer_def Let_def split: if_splits)
qed

lemma spawnAll_keys: "spawnAll g is = Inr g' \<Longrightarrow> map fst (board g') = map fst (board g)"
proof (induct "is" arbitrary: g)
  case Nil
  then show ?case by simp
next
  case (Cons i rest)
  then show ?case
    by (auto split: sum.splits dest: spawnPieces_keys)
qed

lemma standardCells_kept:
  "standardCells gs \<Longrightarrow> standardCells (snd (movePiece gs a b))"
  "standardCells gs \<Longrightarrow> standardCells (snd (removePieceAt gs pos))"
  "standardCells gs \<Longrightarrow> standardCells (reset gs)"
  by (simp_all add: standardCells_def movePiece_keys removePieceAt_keys reset_keys)

lemma standardCells_initGame:
  assumes "homeSpaces gs = generateAllTriangles" "initGame gs playerCount = Inr gs'"
  shows "standardCells gs'"
proof -
  have hs: "homeSpaces (reset gs) = homeSpaces newGameState"
    using assms(1) by (simp add: reset_def newGameState_def)
  from assms(2) obtain g4 where g4: "gs' = g4\<lparr>matchPhase := InProgress\<rparr>"
    "map fst (board g4) = map fst (board (initializeBoard (reset gs)))"
    by (auto simp add: initGame_def Let_def split: sum.splits dest: spawnAll_keys)
  then show ?thesis
    unfolding standardCells_def using initializeBoard_board[OF hs] by simp
qed

section \<open>The jump scan (claims C4, C2 and C3)\<close>

lemma equals_iff: "equals a b \<longleftrightarrow> a = b"
  by (cases a; cases b) (simp add: equals_def)

text \<open>Scan up to the origin.\<close>

lemma scan_stops_at_origin:
  assumes "k \<le> d"
    and "\<forall>i. k \<le> i \<and> i < d \<longrightarrow> \<not> isPositionOccupied gs (add cp (scale dir i))"
    and "isPositionOccupied gs (add cp (scale dir d))" "add cp (scale dir d) = sp"
  shows "checkJumpLoop lim gs sp cp dir pth k False pd (V, ms) = (V, ms)"
  using assms(1,2)
proof (induct "nat (d - k)" arbitrary: k pd)
  case 0
  then have "k = d" by simp
  with assms(3,4) show ?case
    by (simp add: checkJumpLoop.simps[of lim gs sp cp dir pth d False pd V ms] Let_def equals_iff)
next
  case (Suc n)
  then have lt: "k < d" by simp
  with Suc.prems have free: "\<not> isPositionOccupied gs (add cp (scale dir k))" by simp
  have "checkJumpLoop lim gs sp cp dir pth (k + 1) False pd (V, ms) = (V, ms)"
    using Suc.hyps(2) lt Suc.prems(2) by (intro Suc.hyps(1)) auto
  with free show ?case
    by (simp add: checkJumpLoop.simps[of lim gs sp cp dir pth k False pd V ms] Let_def)
qed

text \<open>
  Claim C4. If the first occupied cell met by the outward scan from \<open>currentPos\<close> is the
  original start position, the scan of that direction changes nothing: no move is
  recorded, no landing is visited and no search is continued, whatever the position in
  the chain and whatever the loop bound.
\<close>

theorem origin_never_jumped:
  assumes "1 \<le> d"
    and "\<forall>i. 1 \<le> i \<and> i < d \<longrightarrow> \<not> isPositionOccupied gs (add currentPos (scale dir i))"
    and "isPositionOccupied gs (add currentPos (scale dir d))"
    and "add currentPos (scale dir d) = startPos"
  shows "checkJumpInDirection lim gs startPos currentPos dir currentPath (visited, moves)
           = (visited, moves)"
  unfolding checkJumpInDirection_def
  using assms by (intro scan_stops_at_origin[where d = d]) auto

theorem origin_never_jumped_witness:
  "checkJumpInDirection 16 exampleState (HexPosition 0 0) (HexPosition 2 0) WEST
       [HexPosition 0 2, HexPosition 2 0]
       ({key (HexPosition 0 0), key (HexPosition 0 2), key (HexPosition 2 0)}, [])
     = ({key (HexPosition 0 0), key (HexPosition 0 2), key (HexPosition 2 0)}, [])"
proof (rule origin_never_jumped[where d = 2])
  show "(1::int) \<le> 2" by simp
  show "\<forall>i. 1 \<le> i \<and> i < 2 \<longrightarrow>
      \<not> isPositionOccupied exampleState (add (HexPosition 2 0) (scale WEST i))"
  proof (intro allI impI)
    fix i :: int assume "1 \<le> i \<and> i < 2"
    then have "i = 1" by simp
    then show "\<not> isPositionOccupied exampleState (add (HexPosition 2 0) (scale WEST i))"
      by (simp add: exampleState_occupied WEST_def add_def scale_def)
  qed
  show "isPositionOccupied exampleState (add (HexPosition 2 0) (scale WEST 2))"
    by (simp add: exampleState_occupied WEST_def add_def scale_def)
  show "add (HexPosition 2 0) (scale WEST 2) = HexPosition 0 0"
    by (simp add: WEST_def add_def scale_def)
qed

lemma scan_after_pivot:
  assumes "d < k" "k \<le> 2 * d" "2 * d \<le> lim"
    and "\<forall>i. k \<le> i \<and> i < 2 * d \<longrightarrow>
          isPositionOnBoard gs (add cp (scale dir i)) \<and> \<not> isPositionOccupied gs (add cp (scale dir i))"
    and "isPositionOnBoard gs (add cp (scale dir (2 * d)))"
    and "\<not> isPositionOccupied gs (add cp (scale dir (2 * d)))"
  shows "checkJumpLoop lim gs sp cp dir pth k True d (V, ms)
           = landOn lim gs sp pth (add cp (scale dir (2 * d))) (V, ms)"
  using assms(1,2,4)
proof (induct "nat (2 * d - k)" arbitrary: k)
  case 0
  then have k: "k = 2 * d" by simp
  show ?case
    using assms(3,5,6) unfolding k
    by (simp add: checkJumpLoop.simps[of lim gs sp cp dir pth "2 * d" True d V ms] Let_def landOn_def)
next
  case (Suc n)
  then have lt: "k < 2 * d" by simp
  with Suc.prems have here: "isPositionOnBoard gs (add cp (scale dir k))"
    "\<not> isPositionOccupied gs (add cp (scale dir k))" by simp_all
  have "checkJumpLoop lim gs sp cp dir pth (k + 1) True d (V, ms)
      = landOn lim gs sp pth (add cp (scale dir (2 * d))) (V, ms)"
    using Suc.hyps(2) lt Suc.prems by (intro Suc.hyps(1)) auto
  with here lt assms(3) show ?case
    by (simp add: checkJumpLoop.simps[of lim gs sp cp dir pth k True d V ms] Let_def)
qed

lemma scan_before_pivot:
  assumes "k \<le> d" "d \<le> lim"
    and "\<forall>i. k \<le> i \<and> i < d \<longrightarrow>
          isPositionOnBoard gs (add cp (scale dir i)) \<and> \<not> isPositionOccupied gs (add cp (scale dir i))"
    and "isPositionOnBoard gs (add cp (scale dir d))" "isPositionOccupied gs (add cp (scale dir d))"
    and "add cp (scale dir d) \<noteq> sp"
  shows "checkJumpLoop lim gs sp cp dir pth k False pd s
           = checkJumpLoop lim gs sp cp dir pth (d + 1) True d s"
  using assms(1,3)
proof (induct "nat (d - k)" arbitrary: k pd)
  case 0
  then have k: "k = d" by simp
  obtain V ms where s: "s = (V, ms)" by (cases s)
  show ?case
    using assms(2,4,5,6) unfolding k s
    by (simp add: checkJumpLoop.simps[of lim gs sp cp dir pth d False pd V ms] Let_def equals_iff)
next
  case (Suc n)
  then have lt: "k < d" by simp
  obtain V ms where s: "s = (V, ms)" by (cases s)
  from lt Suc.prems have here: "isPositionOnBoard gs (add cp (scale dir k))"
    "\<not> isPositionOccupied gs (add cp (scale dir k))" by simp_all
  have "checkJumpLoop lim gs sp cp dir pth (k + 1) False pd s
      = checkJumpLoop lim gs sp cp dir pth (d + 1) True d s"
    using Suc.hyps(2) lt Suc.prems by (intro Suc.hyps(1)) auto
  with here lt assms(2) show ?case
    unfolding s
    by (simp add: checkJumpLoop.simps[of lim gs sp cp dir pth k False pd V ms] Let_def)
qed

lemma jump_is_recorded:
  assumes "jumpOver lim gs sp cp dir d"
  shows "checkJumpInDirection lim gs sp cp dir pth s
           = landOn lim gs sp pth (add cp (scale dir (2 * d))) s"
proof -
  obtain V ms where s: "s = (V, ms)" by (cases s)
  from assms have d: "1 \<le> d" "2 * d \<le> lim" unfolding jumpOver_def by simp_all
  have "checkJumpLoop lim gs sp cp dir pth 1 False 0 s
      = checkJumpLoop lim gs sp cp dir pth (d + 1) True d s"
    using assms d unfolding jumpOver_def by (intro scan_before_pivot) auto
  also have "\<dots> = landOn lim gs sp pth (add cp (scale dir (2 * d))) s"
    unfolding s using assms d unfolding jumpOver_def by (intro scan_after_pivot) auto
  finally show ?thesis unfolding checkJumpInDirection_def .
qed

lemma scan_after_pivot_cases:
  assumes "d < k" "k \<le> 2 * d" "1 \<le> d"
    and "\<forall>i. 1 \<le> i \<and> i < k \<longrightarrow> isPositionOnBoard gs (add cp (scale dir i))"
    and "\<forall>i. 1 \<le> i \<and> i < k \<and> i \<noteq> d \<longrightarrow> \<not> isPositionOccupied gs (add cp (scale dir i))"
    and "isPositionOccupied gs (add cp (scale dir d))" "add cp (scale dir d) \<noteq> sp"
  shows "checkJumpLoop lim gs sp cp dir pth k True d s = s
       \<or> (jumpOver lim gs sp cp dir d
          \<and> checkJumpLoop lim gs sp cp dir pth k True d s
              = landOn lim gs sp pth (add cp (scale dir (2 * d))) s)"
  using assms(1,2,4,5)
proof (induct "nat (2 * d - k)" arbitrary: k)
  case 0
  then have k: "k = 2 * d" by simp
  obtain V ms where s: "s = (V, ms)" by (cases s)
  note eq = checkJumpLoop.simps[of lim gs sp cp dir pth "2 * d" True d V ms]
  show ?case
  proof (cases "2 * d \<le> lim \<and> isPositionOnBoard gs (add cp (scale dir (2 * d)))
      \<and> \<not> isPositionOccupied gs (add cp (scale dir (2 * d)))")
    case True
    then have "jumpOver lim gs sp cp dir d"
      using 0(4,5) assms(3,6,7) unfolding jumpOver_def k by auto
    moreover have "checkJumpLoop lim gs sp cp dir pth (2 * d) True d s
              = landOn lim gs sp pth (add cp (scale dir (2 * d))) s"
      using True unfolding s by (simp add: eq Let_def landOn_def)
    ultimately show ?thesis unfolding k by simp
  next
    case False
    then have "checkJumpLoop lim gs sp cp dir pth (2 * d) True d s = s"
      unfolding s by (auto simp add: eq Let_def)
    then show ?thesis unfolding k by simp
  qed
next
  case (Suc n)
  then have lt: "k < 2 * d" by simp
  obtain V ms where s: "s = (V, ms)" by (cases s)
  note eq = checkJumpLoop.simps[of lim gs sp cp dir pth k True d V ms]
  show ?case
  proof (cases "k \<le> lim \<and> isPositionOnBoard gs (add cp (scale dir k))
      \<and> \<not> isPositionOccupied gs (add cp (scale dir k))")
    case True
    have step: "checkJumpLoop lim gs sp cp dir pth k True d s
        = checkJumpLoop lim gs sp cp dir pth (k + 1) True d s"
      using True lt unfolding s by (simp add: eq Let_def)
    have "checkJumpLoop lim gs sp cp dir pth (k + 1) True d s = s
       \<or> (jumpOver lim gs sp cp dir d
          \<and> checkJumpLoop lim gs sp cp dir pth (k + 1) True d s
              = landOn lim gs sp pth (add cp (scale dir (2 * d))) s)"
    proof (rule Suc.hyps(1))
      show "n = nat (2 * d - (k + 1))" using Suc.hyps(2) by simp
      show "d < k + 1" using Suc.prems(1) by simp
      show "k + 1 \<le> 2 * d" using lt by simp
      show "\<forall>i. 1 \<le> i \<and> i < k + 1 \<longrightarrow> isPositionOnBoard gs (add cp (scale dir i))"
        using Suc.prems(3) True by (metis less_le zless_add1_eq)
      show "\<forall>i. 1 \<le> i \<and> i < k + 1 \<and> i \<noteq> d \<longrightarrow> \<not> isPositionOccupied gs (add cp (scale dir i))"
        using Suc.prems(4) True by (metis less_le zless_add1_eq)
    qed
    then show ?thesis unfolding step .
  next
    case False
    then have "checkJumpLoop lim gs sp cp dir pth k True d s = s"
      unfolding s by (auto simp add: eq Let_def)
    then show ?thesis by simp
  qed
qed

lemma scan_cases:
  assumes "1 \<le> k"
    and "\<forall>i. 1 \<le> i \<and> i < k \<longrightarrow>
          isPositionOnBoard gs (add cp (scale dir i)) \<and> \<not> isPositionOccupied gs (add cp (scale dir i))"
  shows "checkJumpLoop lim gs sp cp dir pth k False pd s = s
       \<or> (\<exists>d. jumpOver lim gs sp cp dir d
          \<and> checkJumpLoop lim gs sp cp dir pth k False pd s
              = landOn lim gs sp pth (add cp (scale dir (2 * d))) s)"
  using assms
proof (induct "nat (lim + 1 - k)" arbitrary: k pd)
  case 0
  then have "\<not> k \<le> lim" by simp
  obtain V ms where s: "s = (V, ms)" by (cases s)
  from \<open>\<not> k \<le> lim\<close> show ?case
    unfolding s by (simp add: checkJumpLoop.simps[of lim gs sp cp dir pth k False pd V ms])
next
  case (Suc n)
  then have le: "k \<le> lim" by simp
  obtain V ms where s: "s = (V, ms)" by (cases s)
  note eq = checkJumpLoop.simps[of lim gs sp cp dir pth k False pd V ms]
  consider (off) "\<not> isPositionOnBoard gs (add cp (scale dir k))"
    | (origin) "isPositionOnBoard gs (add cp (scale dir k))"
        "isPositionOccupied gs (add cp (scale dir k))" "add cp (scale dir k) = sp"
    | (pivot) "isPositionOnBoard gs (add cp (scale dir k))"
        "isPositionOccupied gs (add cp (scale dir k))" "add cp (scale dir k) \<noteq> sp"
    | (free) "isPositionOnBoard gs (add cp (scale dir k))"
        "\<not> isPositionOccupied gs (add cp (scale dir k))"
    by blast
  then show ?case
  proof cases
    case off
    then show ?thesis unfolding s by (simp add: eq Let_def)
  next
    case origin
    then show ?thesis unfolding s by (simp add: eq Let_def equals_iff)
  next
    case pivot
    have step: "checkJumpLoop lim gs sp cp dir pth k False pd s
        = checkJumpLoop lim gs sp cp dir pth (k + 1) True k s"
      using pivot le unfolding s by (simp add: eq Let_def equals_iff)
    have "checkJumpLoop lim gs sp cp dir pth (k + 1) True k s = s
       \<or> (jumpOver lim gs sp cp dir k
          \<and> checkJumpLoop lim gs sp cp dir pth (k + 1) True k s
              = landOn lim gs sp pth (add cp (scale dir (2 * k))) s)"
    proof (rule scan_after_pivot_cases)
      show "k < k + 1" by simp
      show "k + 1 \<le> 2 * k" using Suc.prems(1) by simp
      show "1 \<le> k" by fact
      show "\<forall>i. 1 \<le> i \<and> i < k + 1 \<longrightarrow> isPositionOnBoard gs (add cp (scale dir i))"
        using Suc.prems(2) pivot(1) by (metis less_le zless_add1_eq)
      show "\<forall>i. 1 \<le> i \<and> i < k + 1 \<and> i \<noteq> k \<longrightarrow> \<not> isPositionOccupied gs (add cp (scale dir i))"
        using Suc.prems(2) by (metis less_le zless_add1_eq)
      show "isPositionOccupied gs (add cp (scale dir k))" by fact
      show "add cp (scale dir k) \<noteq> sp" by fact
    qed
    then show ?thesis unfolding step by blast
  next
    case free
    have step: "checkJumpLoop lim gs sp cp dir pth k False pd s
        = checkJumpLoop lim gs sp cp dir pth (k + 1) False pd s"
      using free le unfolding s by (simp add: eq Let_def)
    have "checkJumpLoop lim gs sp cp dir pth (k + 1) False pd s = s
       \<or> (\<exists>d. jumpOver lim gs sp cp dir d
          \<and> checkJumpLoop lim gs sp cp dir pth (k + 1) False pd s
              = landOn lim gs sp pth (add cp (scale dir (2 * d))) s)"
    proof (rule Suc.hyps(1))
      show "n = nat (lim + 1 - (k + 1))" using Suc.hyps(2) by simp
      show "1 \<le> k + 1" using Suc.prems(1) by simp
      show "\<forall>i. 1 \<le> i \<and> i < k + 1 \<longrightarrow>
          isPositionOnBoard gs (add cp (scale dir i)) \<and> \<not> isPositionOccupied gs (add cp (scale dir i))"
        using Suc.prems(2) free by (metis less_le zless_add1_eq)
    qed
    then show ?thesis unfolding step .
  qed
qed

lemma scan_outcome:
  "checkJumpInDirection lim gs sp cp dir pth s = s
   \<or> (\<exists>d. jumpOver lim gs sp cp dir d
          \<and> checkJumpInDirection lim gs sp cp dir pth s
              = landOn lim gs sp pth (add cp (scale dir (2 * d))) s)"
  unfolding checkJumpInDirection_def by (rule scan_cases) auto

lemma moves_of_findMoves: "\<exists>new. snd (findMoves lim gs sp cp hj pth (V, ms)) = ms @ new"
  using search_invariant(1)[of cp V ms lim gs sp hj pth] unfolding searchExtends_def by auto

lemma recorded_landOn:
  "take 1 (drop (length (snd s)) (snd (landOn lim gs sp pth L s)))
     = (if key L \<in> fst s then [] else [createJumpMove L (pth @ [L])])"
proof (cases "key L \<in> fst s")
  case True
  then show ?thesis by (simp add: landOn_def)
next
  case False
  obtain new where "snd (findMoves lim gs sp L True (pth @ [L])
      (fst s, snd s @ [createJumpMove L (pth @ [L])])) = (snd s @ [createJumpMove L (pth @ [L])]) @ new"
    using moves_of_findMoves by blast
  with False show ?thesis by (simp add: landOn_def)
qed

lemma landing_distance_unique:
  assumes "dir \<in> set HEX_DIRECTIONS" "add p (scale dir i) = add p (scale dir j)"
  shows "i = j"
  using assms unfolding direction_cases
  by (cases p) (auto simp add: add_def scale_def)

lemma standard_jumpOver:
  assumes "standardCells gs" "dir \<in> set HEX_DIRECTIONS" "1 \<le> d"
  shows "jumpOver 16 gs sp cp dir d \<longleftrightarrow>
     (\<forall>i. 1 \<le> i \<and> i < d \<longrightarrow>
          isPositionOnBoard gs (add cp (scale dir i)) \<and> \<not> isPositionOccupied gs (add cp (scale dir i)))
     \<and> isPositionOnBoard gs (add cp (scale dir d))
     \<and> isPositionOccupied gs (add cp (scale dir d))
     \<and> add cp (scale dir d) \<noteq> sp
     \<and> (\<forall>i. d < i \<and> i < 2 * d \<longrightarrow> \<not> isPositionOccupied gs (add cp (scale dir i)))
     \<and> isPositionOnBoard gs (add cp (scale dir (2 * d)))
     \<and> \<not> isPositionOccupied gs (add cp (scale dir (2 * d)))"
    (is "?L \<longleftrightarrow> ?R")
proof
  assume ?L
  then show ?R using assms(3) unfolding jumpOver_def by auto
next
  assume r: ?R
  note ob = standardCells_onBoard[OF assms(1)]
  have onb: "isPositionOnBoard gs (add cp (scale dir i))" if "1 \<le> i" "i < 2 * d" for i
  proof (cases "i < d")
    case True
    with r that show ?thesis by simp
  next
    case False
    have "onStar (add cp (scale dir d))" "onStar (add cp (scale dir (2 * d)))"
      using r ob by simp_all
    from star_line_convex[OF assms(2) this, of i] False that show ?thesis
      by (simp add: ob)
  qed
  have bound: "2 * d \<le> 16"
  proof (cases "d = 1")
    case True
    then show ?thesis by simp
  next
    case False
    with assms(3) r have "onStar (add cp (scale dir 1))" "onStar (add cp (scale dir (2 * d)))"
      using ob by simp_all
    from star_line_span[OF assms(2) this] show ?thesis by simp
  qed
  have free: "\<not> isPositionOccupied gs (add cp (scale dir i))" if "1 \<le> i" "i < 2 * d" "i \<noteq> d" for i
  proof (cases "i < d")
    case True
    with r that show ?thesis by simp
  next
    case False
    with that have "d < i" by simp
    with r that show ?thesis by simp
  qed
  show ?L
    unfolding jumpOver_def using r assms(3) onb bound free by simp
qed

text \<open>
  Claim C2. On the standard cells, for every position \<open>P\<close>, direction \<open>dir\<close> and \<open>d \<ge> 1\<close>:
  the scan from \<open>P\<close> in \<open>dir\<close> records the jump-move to the cell at distance \<open>2 * d\<close> (with the
  path extended by that cell) if and only if the cells at distances \<open>1 .. d - 1\<close> are on the
  board and unoccupied, the cell at \<open>d\<close> is on the board, occupied and not the start, the
  cells at \<open>d + 1 .. 2 * d - 1\<close> are unoccupied, the cell at \<open>2 * d\<close> is on the board and
  unoccupied, and its key is not yet visited.
\<close>

theorem jump_recorded_iff:
  assumes "standardCells gs" "dir \<in> set HEX_DIRECTIONS" "1 \<le> d"
  shows "recordedByScan 16 gs startPos P dir path (visited, moves)
           = [createJumpMove (add P (scale dir (2 * d))) (path @ [add P (scale dir (2 * d))])]
     \<longleftrightarrow>
       (\<forall>i. 1 \<le> i \<and> i < d \<longrightarrow>
          isPositionOnBoard gs (add P (scale dir i)) \<and> \<not> isPositionOccupied gs (add P (scale dir i)))
     \<and> isPositionOnBoard gs (add P (scale dir d))
     \<and> isPositionOccupied gs (add P (scale dir d))
     \<and> add P (scale dir d) \<noteq> startPos
     \<and> (\<forall>i. d < i \<and> i < 2 * d \<longrightarrow> \<not> isPositionOccupied gs (add P (scale dir i)))
     \<and> isPositionOnBoard gs (add P (scale dir (2 * d)))
     \<and> \<not> isPositionOccupied gs (add P (scale dir (2 * d)))
     \<and> key (add P (scale dir (2 * d))) \<notin> visited"
    (is "?rec \<longleftrightarrow> ?cond")
proof -
  let ?L = "add P (scale dir (2 * d))"
  have "?rec \<longleftrightarrow> jumpOver 16 gs startPos P dir d \<and> key ?L \<notin> visited"
  proof
    assume rec: ?rec
    from scan_outcome[of 16 gs startPos P dir path "(visited, moves)"]
    show "jumpOver 16 gs startPos P dir d \<and> key ?L \<notin> visited"
    proof
      assume "checkJumpInDirection 16 gs startPos P dir path (visited, moves) = (visited, moves)"
      with rec show ?thesis by (simp add: recordedByScan_def)
    next
      assume "\<exists>d'. jumpOver 16 gs startPos P dir d'
          \<and> checkJumpInDirection 16 gs startPos P dir path (visited, moves)
              = landOn 16 gs startPos path (add P (scale dir (2 * d'))) (visited, moves)"
      then obtain d' where d': "jumpOver 16 gs startPos P dir d'"
        "checkJumpInDirection 16 gs startPos P dir path (visited, moves)
              = landOn 16 gs startPos path (add P (scale dir (2 * d'))) (visited, moves)" by blast
      from rec have "(if key (add P (scale dir (2 * d'))) \<in> visited then []
          else [createJumpMove (add P (scale dir (2 * d'))) (path @ [add P (scale dir (2 * d'))])])
          = [createJumpMove ?L (path @ [?L])]"
        unfolding recordedByScan_def d'(2)
        using recorded_landOn[of "(visited, moves)" 16 gs startPos path "add P (scale dir (2 * d'))"]
        by simp
      then have nv: "key (add P (scale dir (2 * d'))) \<notin> visited"
        and same: "add P (scale dir (2 * d')) = ?L"
        by (auto simp add: createJumpMove_def split: if_splits)
      from landing_distance_unique[OF assms(2) same] have "d' = d" by simp
      with d'(1) nv show ?thesis by simp
    qed
  next
    assume a: "jumpOver 16 gs startPos P dir d \<and> key ?L \<notin> visited"
    then have "checkJumpInDirection 16 gs startPos P dir path (visited, moves)
        = landOn 16 gs startPos path ?L (visited, moves)"
      by (simp add: jump_is_recorded)
    with a show ?rec
      unfolding recordedByScan_def
      using recorded_landOn[of "(visited, moves)" 16 gs startPos path ?L] by simp
  qed
  then show ?thesis
    unfolding standard_jumpOver[OF assms, of startPos P] by simp
qed

theorem jump_recorded_iff_witness:
  "recordedByScan 16 exampleState (HexPosition 0 0) (HexPosition 0 0) SOUTHEAST []
       ({key (HexPosition 0 0)}, [])
     = [createJumpMove (HexPosition 0 2) [HexPosition 0 2]]"
proof -
  have dir: "SOUTHEAST \<in> set HEX_DIRECTIONS" by (simp add: HEX_DIRECTIONS_def)
  have "\<not> (1 \<le> i \<and> i < 1)" "\<not> (1 < i \<and> i < 2 * 1)" for i :: int by simp_all
  then show ?thesis
    using jump_recorded_iff[OF exampleState_cells dir, of 1 "HexPosition 0 0" "HexPosition 0 0" "[]"
        "{key (HexPosition 0 0)}" "[]"]
    by (simp add: exampleState_occupied exampleState_onBoard onStar_def SOUTHEAST_def add_def
        scale_def)
qed

lemma no_sixteen_in_line:
  assumes "standardCells gs" "dir \<in> set HEX_DIRECTIONS"
    and "\<forall>i. 1 \<le> i \<and> i < k \<longrightarrow> isPositionOnBoard gs (add cp (scale dir i))"
  shows "k \<le> 14"
proof (rule ccontr)
  assume "\<not> k \<le> 14"
  with assms(3) have "isPositionOnBoard gs (add cp (scale dir 1))"
    "isPositionOnBoard gs (add cp (scale dir 14))" by simp_all
  then have "onStar (add cp (scale dir 1))" "onStar (add cp (scale dir 14))"
    by (simp_all add: standardCells_onBoard[OF assms(1)])
  from star_line_span[OF assms(2) this] show False by simp
qed

lemma scan_limit_irrelevant:
  "standardCells gs \<Longrightarrow> 16 \<le> lim \<Longrightarrow>
     findMoves lim gs sp cp hj pth (V, ms) = findMoves 16 gs sp cp hj pth (V, ms)"
  "standardCells gs \<Longrightarrow> 16 \<le> lim \<Longrightarrow> set dirs \<subseteq> set HEX_DIRECTIONS \<Longrightarrow>
     forEachDirection lim gs sp cp hj pth dirs st = forEachDirection 16 gs sp cp hj pth dirs st"
  "standardCells gs \<Longrightarrow> 16 \<le> lim \<Longrightarrow> dir \<in> set HEX_DIRECTIONS \<Longrightarrow> 1 \<le> dist \<Longrightarrow>
     \<forall>i. 1 \<le> i \<and> i < dist \<longrightarrow> isPositionOnBoard gs (add cp (scale dir i)) \<Longrightarrow>
     checkJumpLoop lim gs sp cp dir pth dist fp pd (V, ms)
       = checkJumpLoop 16 gs sp cp dir pth dist fp pd (V, ms)"
proof (induct lim gs sp cp hj pth "(V, ms)" and lim gs sp cp hj pth dirs st
    and lim gs sp cp dir pth dist fp pd "(V, ms)"
    arbitrary: V ms and and V ms rule: findMoves_forEachDirection_checkJumpLoop.induct)
  case (1 lim gs startPos currentPos hasJumped currentPath visited moves)
  then show ?case
    by (simp add: findMoves.simps[of _ gs startPos currentPos hasJumped currentPath visited moves])
next
  case (2 lim gs startPos currentPos hasJumped currentPath s)
  show ?case by (simp add: forEachDirection.simps)
next
  case (3 lim gs startPos currentPos hasJumped currentPath dir dirs visited moves)
  let ?m1 = "(if isPositionOnBoard gs (add currentPos dir)
                       \<and> \<not> isPositionOccupied gs (add currentPos dir) \<and> \<not> hasJumped
                    then moves @ [createSimpleMove (add currentPos dir)] else moves)"
  have a: "checkJumpLoop lim gs startPos currentPos dir currentPath 1 False 0 (visited, ?m1)
      = checkJumpLoop 16 gs startPos currentPos dir currentPath 1 False 0 (visited, ?m1)"
    using "3.prems" by (intro "3.hyps"(1)[OF refl refl]) auto
  have b: "forEachDirection lim gs startPos currentPos hasJumped currentPath dirs
        (checkJumpLoop lim gs startPos currentPos dir currentPath 1 False 0 (visited, ?m1))
      = forEachDirection 16 gs startPos currentPos hasJumped currentPath dirs
        (checkJumpLoop lim gs startPos currentPos dir currentPath 1 False 0 (visited, ?m1))"
    using "3.prems" by (intro "3.hyps"(2)[OF refl refl]) auto
  have "forEachDirection lim gs startPos currentPos hasJumped currentPath (dir # dirs) (visited, moves)
      = forEachDirection lim gs startPos currentPos hasJumped currentPath dirs
        (checkJumpLoop lim gs startPos currentPos dir currentPath 1 False 0 (visited, ?m1))"
    by (simp add: forEachDirection.simps(2)[of lim gs startPos currentPos hasJumped currentPath dir dirs visited moves] Let_def)
  also have "\<dots> = forEachDirection 16 gs startPos currentPos hasJumped currentPath dirs
        (checkJumpLoop 16 gs startPos currentPos dir currentPath 1 False 0 (visited, ?m1))"
    using b a by simp
  also have "\<dots> = forEachDirection 16 gs startPos currentPos hasJumped currentPath (dir # dirs) (visited, moves)"
    by (simp add: forEachDirection.simps(2)[of 16 gs startPos currentPos hasJumped currentPath dir dirs visited moves] Let_def)
  finally show ?case .
next
  case (4 lim gs startPos currentPos dir currentPath distance foundPiece pieceDistance visited moves)
  note ih = "4.hyps"(1)[OF _ refl _ refl] "4.hyps"(2)[OF _ refl _ refl]
    "4.hyps"(3)[OF _ refl _ refl _ _ _ _ refl] "4.hyps"(4)[OF _ refl _ refl]
  note eqL = checkJumpLoop.simps[of lim gs startPos currentPos dir currentPath distance foundPiece pieceDistance visited moves]
  note eqS = checkJumpLoop.simps[of 16 gs startPos currentPos dir currentPath distance foundPiece pieceDistance visited moves]
  from no_sixteen_in_line[OF "4.prems"(1,3,5)] have small: "distance \<le> 14" .
  with "4.prems"(2) have le: "distance \<le> lim" "distance \<le> 16" by simp_all
  show ?case
  proof (cases "isPositionOnBoard gs (add currentPos (scale dir distance))")
    case False
    then show ?thesis by (simp add: eqL eqS Let_def)
  next
    case True
    have inv: "\<forall>i. 1 \<le> i \<and> i < distance + 1 \<longrightarrow> isPositionOnBoard gs (add currentPos (scale dir i))"
      using "4.prems"(5) True by (metis less_le zless_add1_eq)
    have next_dist: "1 \<le> distance + 1" using "4.prems"(4) by simp
    note pre = "4.prems"(1,2,3) next_dist inv
    show ?thesis
      using True le ih(1)[OF le(1) _ _ _ _ pre] ih(2)[OF le(1) _ _ _ pre]
        ih(3)[OF le(1) _ _ _ _ _ "4.prems"(1,2)] ih(4)[OF le(1) _ _ _ _ pre]
      by (auto simp add: eqL eqS Let_def)
  qed
qed

text \<open>
  Claim C3. On the standard cells the loop bound 16 never ends a scan: the search with any
  bound \<open>lim \<ge> 16\<close> returns what the search with bound 16 returns, for \<open>findMoves\<close> and for
  the scan of every direction; a scan stops, unchanged, at an off-board cell; a scan that
  has only met on-board cells before distance \<open>k\<close> has \<open>k \<le> 16\<close>; and from every on-board
  cell some cell at distance at most 17 along every direction is off the board.
\<close>

theorem scan_bound_never_reached:
  assumes "standardCells gs" "16 \<le> lim"
  shows "findMoves lim gs startPos currentPos hasJumped path s
           = findMoves 16 gs startPos currentPos hasJumped path s
     \<and> (\<forall>dir\<in>set HEX_DIRECTIONS.
           checkJumpInDirection lim gs startPos currentPos dir path s
             = checkJumpInDirection 16 gs startPos currentPos dir path s)
     \<and> (\<forall>dir k fp pd. \<not> isPositionOnBoard gs (add currentPos (scale dir k)) \<longrightarrow>
           checkJumpLoop lim gs startPos currentPos dir path k fp pd s = s)
     \<and> (\<forall>dir\<in>set HEX_DIRECTIONS. \<forall>k.
           (\<forall>i. 1 \<le> i \<and> i < k \<longrightarrow> isPositionOnBoard gs (add currentPos (scale dir i)))
             \<longrightarrow> k \<le> 16)
     \<and> (\<forall>p dir. isPositionOnBoard gs p \<and> dir \<in> set HEX_DIRECTIONS \<longrightarrow>
           (\<exists>d. 1 \<le> d \<and> d \<le> 17 \<and> \<not> isPositionOnBoard gs (add p (scale dir d))))"
proof (intro conjI ballI allI impI)
  obtain V ms where s: "s = (V, ms)" by (cases s)
  show "findMoves lim gs startPos currentPos hasJumped path s
           = findMoves 16 gs startPos currentPos hasJumped path s"
    unfolding s using assms by (rule scan_limit_irrelevant(1))
  show "checkJumpInDirection lim gs startPos currentPos dir path s
             = checkJumpInDirection 16 gs startPos currentPos dir path s"
    if "dir \<in> set HEX_DIRECTIONS" for dir
    unfolding s checkJumpInDirection_def
    using assms that by (intro scan_limit_irrelevant(3)) auto
  show "checkJumpLoop lim gs startPos currentPos dir path k fp pd s = s"
    if "\<not> isPositionOnBoard gs (add currentPos (scale dir k))" for dir k fp pd
    using that unfolding s
    by (simp add: checkJumpLoop.simps[of lim gs startPos currentPos dir path k fp pd V ms] Let_def)
  show "k \<le> 16"
    if "dir \<in> set HEX_DIRECTIONS"
      "\<forall>i. 1 \<le> i \<and> i < k \<longrightarrow> isPositionOnBoard gs (add currentPos (scale dir i))" for dir k
    using no_sixteen_in_line[OF assms(1) that] by simp
  show "\<exists>d. 1 \<le> d \<and> d \<le> 17 \<and> \<not> isPositionOnBoard gs (add p (scale dir d))"
    if "isPositionOnBoard gs p \<and> dir \<in> set HEX_DIRECTIONS" for p dir
  proof -
    have p0: "add p (scale dir 0) = p" by (cases p) (simp add: add_def scale_def)
    have "\<not> onStar (add p (scale dir 17))"
    proof
      assume "onStar (add p (scale dir 17))"
      moreover have "onStar (add p (scale dir 0))"
        using that by (simp add: p0 standardCells_onBoard[OF assms(1)])
      ultimately show False using star_line_span[of dir p 0 17] that by simp
    qed
    then have "\<not> isPositionOnBoard gs (add p (scale dir 17))"
      by (simp add: standardCells_onBoard[OF assms(1)])
    then show ?thesis by (intro exI[of _ 17]) simp
  qed
qed

theorem scan_bound_never_reached_witness:
  "findMoves 100 exampleState (HexPosition 0 0) (HexPosition 0 0) False [] ({}, [])
     = findMoves 16 exampleState (HexPosition 0 0) (HexPosition 0 0) False [] ({}, [])"
  using scan_bound_never_reached[OF exampleState_cells, of 100] by simp

text \<open>
  The example evaluated: from \<open>(0, 0)\<close> there are five steps, the jump over \<open>(0, 1)\<close> to
  \<open>(0, 2)\<close>, and from there the jump over \<open>(1, 1)\<close> to \<open>(2, 0)\<close>; at \<open>(2, 0)\<close> the scan to the
  west meets the start first and is abandoned.
\<close>

lemma example_moves:
  "findValidMoves exampleState (HexPosition 0 0) =
     [createSimpleMove (HexPosition 1 0), createSimpleMove (HexPosition 1 (- 1)),
      createSimpleMove (HexPosition 0 (- 1)), createSimpleMove (HexPosition (- 1) 0),
      createSimpleMove (HexPosition (- 1) 1),
      createJumpMove (HexPosition 0 2) [HexPosition 0 2],
      createJumpMove (HexPosition 2 0) [HexPosition 0 2, HexPosition 2 0]]"
  by (simp add: findValidMoves_def findMoves.simps forEachDirection.simps checkJumpLoop.simps
      Let_def HEX_DIRECTIONS_def EAST_def NORTHEAST_def NORTHWEST_def WEST_def SOUTHWEST_def
      SOUTHEAST_def add_def scale_def equals_iff exampleState_occupied exampleState_onBoard
      onStar_def)

section \<open>Win detection (claim C6)\<close>

lemma hasWonLoop_iff:
  "hasWonLoop this gs ps \<longleftrightarrow>
     (\<forall>pos\<in>set ps. \<exists>cell pc. getBoardCell gs pos = Some cell \<and> getPiece cell = Some pc
         \<and> ownerPlayerIndex pc = homeTriangleIndex this)"
  by (induct ps) (auto simp add: hasPiece_def getPiece_def split: option.splits)

lemma nth_generateAllTriangles:
  assumes "0 \<le> g" "g \<le> 5"
  shows "generateAllTriangles ! nat g = generateTriangle g"
proof -
  from assms have "g = 0 \<or> g = 1 \<or> g = 2 \<or> g = 3 \<or> g = 4 \<or> g = 5" by arith
  then show ?thesis
    unfolding generateAllTriangles_def by (elim disjE) (simp_all add: eval_nat_numeral)
qed

lemma length_generateTriangle: "length (generateTriangle n) = 10"
  by (simp add: generateTriangle_def baseTriangle_def Let_def)

text \<open>
  Claim C6. In a game state whose home spaces are the six generated triangles, for a player
  with home triangle \<open>home\<close> in \<open>0 .. 5\<close> and goal triangle \<open>getGoalTriangleIndex home\<close>, the win
  check returns (without error) true if and only if every one of the 10 coordinates of
  triangle \<open>(home + 3) mod 6\<close> has a cell that holds a piece whose owner is \<open>home\<close>; a missing
  cell, an empty cell or a piece of another owner makes it false.
\<close>

theorem win_check_exact:
  assumes "homeSpaces gs = generateAllTriangles"
    and "0 \<le> homeTriangleIndex this" "homeTriangleIndex this \<le> 5"
    and "goalTriangleIndex this = getGoalTriangleIndex (homeTriangleIndex this)"
  shows "length (generateTriangle ((homeTriangleIndex this + 3) mod 6)) = 10
     \<and> hasWon this gs =
         Inr (\<forall>pos\<in>set (generateTriangle ((homeTriangleIndex this + 3) mod 6)).
                \<exists>cell pc. getBoardCell gs pos = Some cell \<and> getPiece cell = Some pc
                  \<and> ownerPlayerIndex pc = homeTriangleIndex this)"
proof -
  let ?g = "(homeTriangleIndex this + 3) mod 6"
  have g: "goalTriangleIndex this = ?g"
    using assms(2,4) by (simp add: getGoalTriangleIndex_def jsRem_nonneg)
  have range: "0 \<le> ?g" "?g \<le> 5" by simp_all
  have "getTrianglePositions gs ?g = Some (generateTriangle ?g)"
    using nth_generateAllTriangles[OF range] range
    by (simp add: getTrianglePositions_def assms(1) generateAllTriangles_def)
  then show ?thesis
    by (simp add: hasWon_def g hasWonLoop_iff length_generateTriangle)
qed

lemma placePiece_homeSpaces [simp]: "homeSpaces (placePiece gs pos pc) = homeSpaces gs"
  by (simp add: placePiece_def split: option.splits)

lemma placePiece_owned_here:
  "isPositionOnBoard gs pos \<Longrightarrow> ownedBy h (placePiece gs pos (newPiece pos' h)) pos"
  by (auto simp add: ownedBy_def placePiece_def isPositionOnBoard_def getBoardCell_def update_conv'
      setPiece_def getPiece_def newPiece_def)

lemma placePiece_owned_kept:
  "ownedBy h gs p \<Longrightarrow> ownedBy h (placePiece gs pos (newPiece pos' h)) p"
  by (auto simp add: ownedBy_def placePiece_def getBoardCell_def update_conv'
      setPiece_def getPiece_def newPiece_def split: option.splits)

lemma fold_placePiece_kept:
  "ownedBy h g p \<Longrightarrow> ownedBy h (fold (\<lambda>pos g. placePiece g pos (newPiece pos h)) ps g) p"
  by (induct ps arbitrary: g) (simp_all add: placePiece_owned_kept)

lemma fold_placePiece_owned:
  assumes "\<forall>p\<in>set ps. isPositionOnBoard g p" "p \<in> set ps"
  shows "ownedBy h (fold (\<lambda>pos g. placePiece g pos (newPiece pos h)) ps g) p"
  using assms
proof (induct ps arbitrary: g)
  case Nil
  then show ?case by simp
next
  case (Cons a ps)
  show ?case
  proof (cases "p = a")
    case True
    with Cons.prems have "ownedBy h (placePiece g a (newPiece a h)) p"
      by (simp add: placePiece_owned_here)
    then show ?thesis by (simp add: fold_placePiece_kept)
  next
    case False
    with Cons.prems have "p \<in> set ps" by simp
    moreover have "\<forall>p\<in>set ps. isPositionOnBoard (placePiece g a (newPiece a h)) p"
      using Cons.prems(1) by (simp add: placePiece_onBoard)
    ultimately show ?thesis using Cons.hyps by simp
  qed
qed

lemma fold_placePiece_homeSpaces:
  "homeSpaces (fold (\<lambda>pos g. placePiece g pos (newPiece pos h)) ps g) = homeSpaces g"
  by (induct ps arbitrary: g) simp_all

lemma triangle_on_board:
  assumes "0 \<le> n" "n \<le> 5" "p \<in> set (generateTriangle n)"
  shows "isPositionOnBoard (initializeBoard newGameState) p"
proof -
  from assms(1,2) have "n = 0 \<or> n = 1 \<or> n = 2 \<or> n = 3 \<or> n = 4 \<or> n = 5" by arith
  with assms(3) have "\<exists>t\<in>set generateAllTriangles. p \<in> set t"
    unfolding generateAllTriangles_def by auto
  then show ?thesis
    unfolding standard_board_cells onStar_decomp set_generateAllTriangles by blast
qed

theorem win_check_exact_witness:
  "hasWon (newPlayerState 0 0) wonState = Inr True
   \<and> hasWon (newPlayerState 0 0) exampleState = Inr False"
proof
  have hs: "homeSpaces wonState = generateAllTriangles"
    by (simp add: wonState_def fold_placePiece_homeSpaces initializeBoard_def newGameState_def Let_def)
  have "\<forall>pos\<in>set (generateTriangle 3). ownedBy 0 wonState pos"
  proof
    fix pos assume "pos \<in> set (generateTriangle 3)"
    then show "ownedBy 0 wonState pos"
      unfolding wonState_def
      by (rule fold_placePiece_owned[rotated]) (auto intro: triangle_on_board[of 3])
  qed
  then show "hasWon (newPlayerState 0 0) wonState = Inr True"
    using win_check_exact[OF hs, of "newPlayerState 0 0"]
    by (simp add: newPlayerState_def ownedBy_def)
next
  have hs: "homeSpaces exampleState = generateAllTriangles"
    by (simp add: exampleState_def initializeBoard_def newGameState_def Let_def)
  have tip: "HexPosition (- 4) 8 \<in> set (generateTriangle 3)"
    by (simp add: set_generateTriangle inBaseTriangle_def eval_nat_numeral rotate60CCW_def)
  have "\<not> isPositionOccupied exampleState (HexPosition (- 4) 8)"
    by (simp add: exampleState_occupied)
  then have "\<not> (\<exists>cell pc. getBoardCell exampleState (HexPosition (- 4) 8) = Some cell
      \<and> getPiece cell = Some pc \<and> ownerPlayerIndex pc = 0)"
    by (auto simp add: isPositionOccupied_def hasPiece_def getPiece_def)
  with tip have "\<not> (\<forall>pos\<in>set (generateTriangle 3).
                \<exists>cell pc. getBoardCell exampleState pos = Some cell \<and> getPiece cell = Some pc
                  \<and> ownerPlayerIndex pc = 0)" by blast
  then show "hasWon (newPlayerState 0 0) exampleState = Inr False"
    using win_check_exact[OF hs, of "newPlayerState 0 0"]
    by (simp add: newPlayerState_def)
qed

section \<open>Moving a piece (claim C7)\<close>

lemma storeFound_length [simp]: "length (storeFound P y xs) = length xs"
  by (induct xs) simp_all

lemma find_store_length:
  "length (case List.find P xs of None \<Rightarrow> xs | Some x \<Rightarrow> storeFound P (f x) xs) = length xs"
  by (simp split: option.splits)

lemma storeFound_nth:
  "i < length xs \<Longrightarrow>
     storeFound P y xs ! i = (if P (xs ! i) \<and> (\<forall>j<i. \<not> P (xs ! j)) then y else xs ! i)"
proof (induct xs arbitrary: i)
  case Nil
  then show ?case by simp
next
  case (Cons a xs)
  show ?case
  proof (cases i)
    case 0
    then show ?thesis by simp
  next
    case (Suc n)
    with Cons.prems have n: "n < length xs" by simp
    show ?thesis
    proof (cases "P a")
      case True
      then show ?thesis unfolding Suc by auto
    next
      case False
      then have "(\<forall>j<Suc n. \<not> P ((a # xs) ! j)) \<longleftrightarrow> (\<forall>j<n. \<not> P (xs ! j))"
        by (auto simp add: less_Suc_eq_0_disj)
      with Cons.hyps[OF n] False show ?thesis unfolding Suc by auto
    qed
  qed
qed

lemma find_first:
  "List.find P xs = Some x \<Longrightarrow> i < length xs \<Longrightarrow> P (xs ! i) \<Longrightarrow> \<forall>j<i. \<not> P (xs ! j) \<Longrightarrow>
     x = xs ! i"
  by (auto simp add: find_Some_iff) (metis linorder_neqE_nat)

lemma find_store_nth:
  assumes "i < length xs"
  shows "(case List.find P xs of None \<Rightarrow> xs | Some x \<Rightarrow> storeFound P (f x) xs) ! i
       = (if P (xs ! i) \<and> (\<forall>j<i. \<not> P (xs ! j)) then f (xs ! i) else xs ! i)"
proof (cases "List.find P xs")
  case None
  then have "\<not> P (xs ! i)" using assms by (simp add: find_None_iff)
  with None show ?thesis by simp
next
  case (Some x)
  show ?thesis
    using find_first[OF Some assms] storeFound_nth[OF assms, of P "f x"]
    by (auto simp add: Some)
qed

text \<open>
  Claim C7. \<open>movePiece\<close> returns true exactly when \<open>fromPos\<close> is on the board and occupied and
  \<open>toPos\<close> is on the board and unoccupied. When it returns false the game state is
  unchanged: no cell, no player and no event changes. When it returns true, the piece that
  was at \<open>fromPos\<close> is at \<open>toPos\<close> (with the position of that cell), \<open>fromPos\<close> is unoccupied,
  every other cell is as before, the first player whose home triangle is the piece's owner
  has the key of \<open>fromPos\<close> replaced by the key of \<open>toPos\<close> in its set while all other
  players are as before, and one \<open>pieceMoved\<close> event is emitted.
\<close>

theorem movePiece_contract:
  assumes "movePiece gs fromPos toPos = (ok, gs')"
  shows "(ok \<longleftrightarrow> isPositionOnBoard gs fromPos \<and> isPositionOccupied gs fromPos
               \<and> isPositionOnBoard gs toPos \<and> \<not> isPositionOccupied gs toPos)
     \<and> (\<not> ok \<longrightarrow> gs' = gs)
     \<and> (ok \<longrightarrow>
          (\<exists>pc toCell.
              getPieceAt gs fromPos = Some pc \<and> getBoardCell gs toPos = Some toCell
            \<and> getPieceAt gs' toPos = Some (pc\<lparr>position := position toCell\<rparr>)
            \<and> \<not> isPositionOccupied gs' fromPos
            \<and> (\<forall>p. p \<noteq> fromPos \<and> p \<noteq> toPos \<longrightarrow> getBoardCell gs' p = getBoardCell gs p)
            \<and> length (players gs') = length (players gs)
            \<and> (\<forall>i<length (players gs).
                  players gs' ! i =
                    (if homeTriangleIndex (players gs ! i) = ownerPlayerIndex pc
                        \<and> (\<forall>j<i. homeTriangleIndex (players gs ! j) \<noteq> ownerPlayerIndex pc)
                     then (players gs ! i)\<lparr>piecePositions :=
                            insert (key toPos) (piecePositions (players gs ! i) - {key fromPos})\<rparr>
                     else players gs ! i))
            \<and> events gs' = events gs @ [PieceMoved fromPos toPos (pc\<lparr>position := position toCell\<rparr>)]))"
proof (cases "getBoardCell gs fromPos")
  case None
  with assms show ?thesis
    by (auto simp add: movePiece_def isPositionOnBoard_def getBoardCell_def)
next
  case fc: (Some fromCell)
  show ?thesis
  proof (cases "getBoardCell gs toPos")
    case None
    with fc assms show ?thesis
      by (auto simp add: movePiece_def isPositionOnBoard_def getBoardCell_def)
  next
    case tc: (Some toCell)
    show ?thesis
    proof (cases "hasPiece fromCell \<and> \<not> hasPiece toCell")
      case False
      with fc tc assms show ?thesis
        by (auto simp add: movePiece_def isPositionOnBoard_def isPositionOccupied_def
            getBoardCell_def)
    next
      case True
      then obtain pc where pc: "piece fromCell = Some pc" by (auto simp add: hasPiece_def)
      from True fc tc have ne: "key fromPos \<noteq> key toPos" by auto
      let ?moved = "pc\<lparr>position := position toCell\<rparr>"
      let ?owns = "\<lambda>p. homeTriangleIndex p = ownerPlayerIndex pc"
      let ?players = "(case List.find ?owns (players gs) of
                            None \<Rightarrow> players gs
                          | Some player \<Rightarrow>
                              storeFound ?owns
                                (updatePiecePosition player (key fromPos) (key toPos))
                                (players gs))"
      let ?board = "AList.update (key toPos) (setPiece toCell (Some pc))
                      (AList.update (key fromPos) (fromCell\<lparr>piece := None\<rparr>) (board gs))"
      have res: "ok" "gs' = gs\<lparr>board := ?board, players := ?players,
                          events := events gs @ [PieceMoved fromPos toPos ?moved]\<rparr>"
        using assms fc tc True pc
        by (simp_all add: movePiece_def removePiece_def Let_def cong: option.case_cong)
      have cond: "isPositionOnBoard gs fromPos \<and> isPositionOccupied gs fromPos
               \<and> isPositionOnBoard gs toPos \<and> \<not> isPositionOccupied gs toPos"
        using fc tc True
        by (simp add: isPositionOnBoard_def isPositionOccupied_def getBoardCell_def)
      have a: "getPieceAt gs fromPos = Some pc"
        using fc pc by (simp add: getPieceAt_def getPiece_def)
      have b: "getPieceAt gs' toPos = Some ?moved"
        unfolding res(2)
        by (simp add: getPieceAt_def getBoardCell_def update_conv' setPiece_def getPiece_def)
      have c: "\<not> isPositionOccupied gs' fromPos"
        unfolding res(2) using ne
        by (simp add: isPositionOccupied_def getBoardCell_def update_conv' hasPiece_def)
      have d: "getBoardCell gs' p = getBoardCell gs p" if "p \<noteq> fromPos \<and> p \<noteq> toPos" for p
        unfolding res(2) using that
        by (simp add: getBoardCell_def update_conv')
      have e: "length (players gs') = length (players gs)"
        unfolding res(2) by (simp add: find_store_length)
      have f: "players gs' ! i =
                    (if homeTriangleIndex (players gs ! i) = ownerPlayerIndex pc
                        \<and> (\<forall>j<i. homeTriangleIndex (players gs ! j) \<noteq> ownerPlayerIndex pc)
                     then (players gs ! i)\<lparr>piecePositions :=
                            insert (key toPos) (piecePositions (players gs ! i) - {key fromPos})\<rparr>
                     else players gs ! i)" if "i < length (players gs)" for i
        unfolding res(2) using find_store_nth[OF that, of ?owns "\<lambda>player. updatePiecePosition player (key fromPos) (key toPos)"]
        by (auto simp add: updatePiecePosition_def)
      have g: "events gs' = events gs @ [PieceMoved fromPos toPos ?moved]"
        unfolding res(2) by simp
      from res(1) cond a tc b c d e f g show ?thesis by blast
    qed
  qed
qed

theorem movePiece_contract_witness:
  "fst (movePiece exampleState (HexPosition 0 0) (HexPosition 1 0))
   \<and> \<not> isPositionOccupied (snd (movePiece exampleState (HexPosition 0 0) (HexPosition 1 0)))
         (HexPosition 0 0)
   \<and> isPositionOccupied (snd (movePiece exampleState (HexPosition 0 0) (HexPosition 1 0)))
         (HexPosition 1 0)
   \<and> movePiece exampleState (HexPosition 0 0) (HexPosition 0 1) = (False, exampleState)"
proof -
  let ?r = "movePiece exampleState (HexPosition 0 0) (HexPosition 1 0)"
  have eq: "?r = (fst ?r, snd ?r)" by simp
  note c = movePiece_contract[OF eq]
  have ok: "fst ?r"
    using c by (simp add: exampleState_occupied exampleState_onBoard onStar_def)
  from c[THEN conjunct2, THEN conjunct2, rule_format, OF ok]
  obtain pc :: Piece and toCell :: BoardCell where
    "getPieceAt (snd ?r) (HexPosition 1 0) = Some (pc\<lparr>position := position toCell\<rparr>)"
    "\<not> isPositionOccupied (snd ?r) (HexPosition 0 0)"
    by blast
  then have moved: "\<not> isPositionOccupied (snd ?r) (HexPosition 0 0)"
    "isPositionOccupied (snd ?r) (HexPosition 1 0)"
    by (auto simp add: getPieceAt_def isPositionOccupied_def hasPiece_def getPiece_def
        split: option.splits)
  let ?f = "movePiece exampleState (HexPosition 0 0) (HexPosition 0 1)"
  have eqf: "?f = (fst ?f, snd ?f)" by simp
  have "\<not> fst ?f \<and> snd ?f = exampleState"
    using movePiece_contract[OF eqf]
    by (simp add: exampleState_occupied exampleState_onBoard onStar_def)
  then have "?f = (False, exampleState)" by (metis prod.collapse)
  with ok moved show ?thesis by simp
qed

end
